theory Spec2Isabelle
  imports Main "HOL-Library.Word"
begin

unbundle bit_operations_syntax

section \<open>Simread: a reader of IAR Simple Code files (src/main.c)\<close>

text \<open>
  The program opens a file, prints its size, its 14-byte header, every record of the
  record stream that follows, and a checksum it recomputes over all bytes but the last
  four. Each \<^verbatim>\<open>Display...\<close> function of the source is embedded as a function from the
  file's bytes to what the function prints (or to the error it reports by returning 1).

  Conventions of the embedding:
  \<^item> a byte (\<^verbatim>\<open>unsigned char\<close>) is \<open>8 word\<close>, an \<^verbatim>\<open>unsigned int\<close> is \<open>32 word\<close>,
    an \<^verbatim>\<open>int\<close> is read off a \<open>32 word\<close> with \<open>sint\<close>;
  \<^item> a file is the list of its bytes; \<^verbatim>\<open>ftell\<close> at the end of the file is the length
    of the list, held in a \<^verbatim>\<open>long\<close> wide enough for it (LP64), so that the casts to
    \<^verbatim>\<open>int\<close> and \<^verbatim>\<open>unsigned int\<close> keep the low 32 bits;
  \<^item> \<^verbatim>\<open>hide_program_bytes\<close>, the global set from the command line, is a parameter.
\<close>

type_synonym u8 = "8 word"
type_synonym u32 = "32 word"

definition HEADER_SIZE_BYTES :: nat where
  "HEADER_SIZE_BYTES = 14"

definition DATA_RECORD_TAG :: u32 where
  "DATA_RECORD_TAG = 0x01"

definition ENTRY_RECORD_TAG :: u32 where
  "ENTRY_RECORD_TAG = 0x02"

definition END_RECORD_TAG :: u32 where
  "END_RECORD_TAG = 0x03"

definition MAX_FILE_SIZE_BYTES :: nat where
  "MAX_FILE_SIZE_BYTES = 1000000"

text \<open>The four ways in which a stage returns 1, named after the message it prints.\<close>

datatype stage_error =
    FileSizeTooLarge
  | CouldNotReadHeader
  | NoRecordBytes
  | CouldNotCalculateChecksum

subsection \<open>Multi-byte fields\<close>

text \<open>
  The source writes \<^verbatim>\<open>b0<<24 | b1<<16 | b2<<8 | b3<<0\<close> at every 4-byte field and
  \<^verbatim>\<open>b0<<8 | b1<<0\<close> at every 2-byte field, and stores the result in an
  \<^verbatim>\<open>unsigned int\<close>.
\<close>

definition shift_or4 :: "u8 \<Rightarrow> u8 \<Rightarrow> u8 \<Rightarrow> u8 \<Rightarrow> u32" where
  "shift_or4 b0 b1 b2 b3 =
     push_bit 24 (ucast b0) OR push_bit 16 (ucast b1) OR push_bit 8 (ucast b2) OR push_bit 0 (ucast b3)"

definition shift_or2 :: "u8 \<Rightarrow> u8 \<Rightarrow> u32" where
  "shift_or2 b0 b1 = push_bit 8 (ucast b0) OR push_bit 0 (ucast b1)"

subsection \<open>DisplayFileSize\<close>

text \<open>
  \<^verbatim>\<open>int size = (int)ftell(fp); if (size >= MAX_FILE_SIZE_BYTES) return 1;\<close>
  On success the function prints \<open>size\<close>, which is the result here.
\<close>

definition DisplayFileSize :: "u8 list \<Rightarrow> stage_error + int" where
  "DisplayFileSize f =
     (let size = sint (word_of_nat (length f) :: u32)
      in if size \<ge> int MAX_FILE_SIZE_BYTES then Inl FileSizeTooLarge else Inr size)"

subsection \<open>DisplayHeader\<close>

record header =
  magic_number :: u32
  program_flags :: u32
  number_of_program_bytes :: u32
  version_information :: u32

text \<open>\<^verbatim>\<open>fread(bf, 1, HEADER_SIZE_BYTES, fp)\<close> from offset 0 returns the bytes there are, 14 at most.\<close>

definition DisplayHeader :: "u8 list \<Rightarrow> stage_error + header" where
  "DisplayHeader f =
     (let bf = take HEADER_SIZE_BYTES f;
          rb = length bf
      in if rb \<noteq> HEADER_SIZE_BYTES then Inl CouldNotReadHeader
         else Inr \<lparr> magic_number = shift_or4 (bf ! 0) (bf ! 1) (bf ! 2) (bf ! 3),
                    program_flags = shift_or4 (bf ! 4) (bf ! 5) (bf ! 6) (bf ! 7),
                    number_of_program_bytes = shift_or4 (bf ! 8) (bf ! 9) (bf ! 10) (bf ! 11),
                    version_information = shift_or2 (bf ! 12) (bf ! 13) \<rparr>)"

subsection \<open>DisplayCalculatedChecksum\<close>

text \<open>
  The loop \<^verbatim>\<open>for (i=0; i<crcPos; i++)\<close> reads the file one byte at a time from offset 0:
  \<open>rest\<close> is what \<^verbatim>\<open>fread\<close> has not consumed yet, and \<^verbatim>\<open>fread\<close> returning 0 is
  \<open>rest = []\<close>. The counter and the accumulator are \<^verbatim>\<open>unsigned int\<close>.
\<close>

fun checksum_loop :: "u8 list \<Rightarrow> u32 \<Rightarrow> u32 \<Rightarrow> u32 \<Rightarrow> stage_error + u32" where
  "checksum_loop [] i crcPos checksum =
     (if i < crcPos then Inl CouldNotCalculateChecksum else Inr checksum)"
| "checksum_loop (fileByte # rest) i crcPos checksum =
     (if i < crcPos then checksum_loop rest (i + 1) crcPos (checksum + ucast fileByte)
      else Inr checksum)"

text \<open>
  \<^verbatim>\<open>crcPos = (unsigned int)ftell(fp) - 4\<close>: the subtraction is unsigned and wraps.
  After the loop, \<^verbatim>\<open>checksum = ~checksum + 1\<close>.
\<close>

definition DisplayCalculatedChecksum :: "u8 list \<Rightarrow> stage_error + u32" where
  "DisplayCalculatedChecksum f =
     (let crcPos = (word_of_nat (length f) :: u32) - 4
      in case checksum_loop f 0 crcPos 0 of
           Inl e \<Rightarrow> Inl e
         | Inr checksum \<Rightarrow> Inr (NOT checksum + 1))"

subsection \<open>DisplayRecord\<close>

text \<open>
  \<^verbatim>\<open>DisplayRecord\<close> gets a pointer into the buffer \<^verbatim>\<open>bf\<close> of \<^verbatim>\<open>DisplayRecords\<close>
  and indexes it without knowing how many bytes were loaded. Memory is therefore a total
  function from offsets (relative to the start of \<^verbatim>\<open>bf\<close>) to bytes: the \<open>rb\<close> bytes
  read from the file, and beyond them whatever lies there (\<open>junk\<close>: the uninitialised
  rest of \<^verbatim>\<open>bf\<close> and the stack behind it). A pointer into \<^verbatim>\<open>bf\<close> is an offset, the
  null pointer is \<open>None\<close>; an offset never wraps around to null.

  A read far enough past the array has no result at all in the program (the process is
  killed), where this memory still gives a byte. A statement about a step therefore says
  what the program does only where the bytes read lie within the array.
\<close>

definition bf_mem :: "u8 list \<Rightarrow> (nat \<Rightarrow> u8) \<Rightarrow> nat \<Rightarrow> u8" where
  "bf_mem bf junk i = (if i < length bf then bf ! i else junk i)"

definition zero_junk :: "nat \<Rightarrow> u8" where
  "zero_junk i = 0"

text \<open>
  The local variables that \<^verbatim>\<open>DisplayRecord\<close> assigns from the record's bytes and
  prints, by record kind; \<open>NoRecord\<close> when the tag is none of the three.
\<close>

datatype record_fields =
    DataRecord u32 u32 u32 u32   \<comment> \<open>segment type, record flags, start address, number of program bytes\<close>
  | EntryRecord u32 u32          \<comment> \<open>entry address, segment type\<close>
  | EndRecord u32                \<comment> \<open>checksum\<close>
  | NoRecord

text \<open>
  One call of \<^verbatim>\<open>DisplayRecord\<close>: the fields printed, the program bytes printed
  (\<open>None\<close> where the source prints none, or \<^verbatim>\<open>[Program bytes hidden]\<close>), the offsets of
  the bytes the call read, and the pointer returned.
\<close>

record display_step =
  decoded :: record_fields
  program_bytes :: "u8 list option"
  bytes_read :: "nat list"
  next_record :: "nat option"

text \<open>
  \<^verbatim>\<open>for(i=12; i<(12+number_of_program_bytes); i++)\<close>: the indices \<open>i\<close> at which
  \<^verbatim>\<open>record[i]\<close> is printed. Both \<open>i\<close> and the bound are \<^verbatim>\<open>unsigned int\<close>.
\<close>

function program_bytes_loop :: "u32 \<Rightarrow> u32 \<Rightarrow> u32 list" where
  "program_bytes_loop i bound = (if i < bound then i # program_bytes_loop (i + 1) bound else [])"
  by pat_completeness auto
termination
proof (relation "measure (\<lambda>(i, bound). unat bound - unat i)")
  show "wf (measure (\<lambda>(i :: u32, bound :: u32). unat bound - unat i))"
    by simp
next
  fix i bound :: u32
  assume lt: "i < bound"
  then have "unat (i + 1) = Suc (unat i)"
    by unat_arith
  moreover from lt have "unat i < unat bound"
    by (simp add: word_less_nat_alt)
  ultimately show "((i + 1, bound), (i, bound)) \<in> measure (\<lambda>(i, bound). unat bound - unat i)"
    by simp
qed

declare program_bytes_loop.simps [simp del]

definition DisplayRecord :: "(nat \<Rightarrow> u8) \<Rightarrow> bool \<Rightarrow> nat \<Rightarrow> display_step" where
  "DisplayRecord mem hide_program_bytes record =
     (let record_tag = (ucast (mem record) :: u32)
      in if record_tag = DATA_RECORD_TAG then
           (let segment_type = ucast (mem (record + 1));
                record_flags = shift_or2 (mem (record + 2)) (mem (record + 3));
                record_start_address =
                  shift_or4 (mem (record + 4)) (mem (record + 5)) (mem (record + 6)) (mem (record + 7));
                number_of_program_bytes =
                  shift_or4 (mem (record + 8)) (mem (record + 9)) (mem (record + 10)) (mem (record + 11));
                shown = (if hide_program_bytes then []
                         else program_bytes_loop 12 (12 + number_of_program_bytes))
            in \<lparr> decoded = DataRecord segment_type record_flags record_start_address
                               number_of_program_bytes,
                 program_bytes = (if hide_program_bytes then None
                                  else Some (map (\<lambda>i. mem (record + unat i)) shown)),
                 bytes_read = [record..<record + 12] @ map (\<lambda>i. record + unat i) shown,
                 next_record = Some (record + 12 + unat number_of_program_bytes) \<rparr>)
         else if record_tag = ENTRY_RECORD_TAG then
           (let entry_record =
                  shift_or4 (mem (record + 1)) (mem (record + 2)) (mem (record + 3)) (mem (record + 4));
                segment_type = ucast (mem (record + 5))
            in \<lparr> decoded = EntryRecord entry_record segment_type,
                 program_bytes = None,
                 bytes_read = [record..<record + 6],
                 next_record = Some (record + 6) \<rparr>)
         else if record_tag = END_RECORD_TAG then
           (let checksum =
                  shift_or4 (mem (record + 1)) (mem (record + 2)) (mem (record + 3)) (mem (record + 4))
            in \<lparr> decoded = EndRecord checksum,
                 program_bytes = None,
                 bytes_read = [record..<record + 5],
                 next_record = None \<rparr>)
         else \<lparr> decoded = NoRecord, program_bytes = None, bytes_read = [record],
                next_record = None \<rparr>)"

subsection \<open>DisplayRecords\<close>

text \<open>
  \<^verbatim>\<open>while(nextRecord) nextRecord = DisplayRecord(nextRecord);\<close> Nothing bounds the
  walk, so it is a partial function: \<open>None\<close> is a walk that never returns.
\<close>

partial_function (option) DisplayRecords_loop ::
  "(nat \<Rightarrow> u8) \<Rightarrow> bool \<Rightarrow> nat \<Rightarrow> display_step list option" where
  "DisplayRecords_loop mem hide_program_bytes nextRecord =
     (let s = DisplayRecord mem hide_program_bytes nextRecord
      in case next_record s of
           None \<Rightarrow> Some [s]
         | Some p \<Rightarrow> Option.bind (DisplayRecords_loop mem hide_program_bytes p) (\<lambda>rest. Some (s # rest)))"

declare DisplayRecords_loop.simps [code]

text \<open>
  \<^verbatim>\<open>bf\<close> holds \<^verbatim>\<open>MAX_FILE_SIZE_BYTES - HEADER_SIZE_BYTES\<close> bytes; \<^verbatim>\<open>fread\<close> fills it
  from offset 14 of the file with the \<open>rb\<close> bytes there are. The function returns 1 when
  \<open>rb = 0\<close> and 0 after the walk.
\<close>

definition DisplayRecords ::
  "bool \<Rightarrow> (nat \<Rightarrow> u8) \<Rightarrow> u8 list \<Rightarrow> (stage_error + display_step list) option" where
  "DisplayRecords hide_program_bytes junk f =
     (let bf = take (MAX_FILE_SIZE_BYTES - HEADER_SIZE_BYTES) (drop HEADER_SIZE_BYTES f);
          rb = length bf
      in if rb \<noteq> 0 then map_option Inr (DisplayRecords_loop (bf_mem bf junk) hide_program_bytes 0)
         else Some (Inl NoRecordBytes))"

subsection \<open>main\<close>

text \<open>
  The four stages in order, each run only when the one before returned 0. The result lists
  what was printed; \<open>Failed\<close> is the stage that returned 1.
\<close>

datatype shown =
    ShownFileSize int
  | ShownHeader header
  | ShownRecords "display_step list"
  | ShownChecksum u32
  | Failed stage_error

definition main :: "bool \<Rightarrow> (nat \<Rightarrow> u8) \<Rightarrow> u8 list \<Rightarrow> shown list option" where
  "main hide_program_bytes junk f =
     (case DisplayFileSize f of
        Inl e \<Rightarrow> Some [Failed e]
      | Inr sz \<Rightarrow>
          (case DisplayHeader f of
             Inl e \<Rightarrow> Some [ShownFileSize sz, Failed e]
           | Inr h \<Rightarrow>
               Option.bind (DisplayRecords hide_program_bytes junk f) (\<lambda>r.
                 case r of
                   Inl e \<Rightarrow> Some [ShownFileSize sz, ShownHeader h, Failed e]
                 | Inr steps \<Rightarrow>
                     (case DisplayCalculatedChecksum f of
                        Inl e \<Rightarrow>
                          Some [ShownFileSize sz, ShownHeader h, ShownRecords steps, Failed e]
                      | Inr c \<Rightarrow>
                          Some [ShownFileSize sz, ShownHeader h, ShownRecords steps,
                                ShownChecksum c]))))"

section \<open>The file format, for stating the properties\<close>

text \<open>
  The source only reads files. To say which byte sequences are well-formed record streams,
  and what "big-endian" means, the layout of the format is written down here as the spec
  gives it (spec.md, sections 3 and 6); none of these definitions is part of the program.
\<close>

text \<open>The value of a byte sequence read most-significant byte first.\<close>

definition spec_be_value :: "u8 list \<Rightarrow> nat" where
  "spec_be_value bs = foldl (\<lambda>acc b. acc * 256 + unat b) 0 bs"

definition spec_be16 :: "16 word \<Rightarrow> u8 list" where
  "spec_be16 w = [ucast (drop_bit 8 w), ucast w]"

definition spec_be32 :: "u32 \<Rightarrow> u8 list" where
  "spec_be32 w = [ucast (drop_bit 24 w), ucast (drop_bit 16 w), ucast (drop_bit 8 w), ucast w]"

text \<open>A record other than the End record: its fields, the payload in full.\<close>

datatype spec_record =
    SpecData u8 "16 word" u32 "u8 list"   \<comment> \<open>segment type, flags, start address, payload\<close>
  | SpecEntry u32 u8                      \<comment> \<open>entry address, segment type\<close>

fun spec_record_bytes :: "spec_record \<Rightarrow> u8 list" where
  "spec_record_bytes (SpecData seg flags addr payload) =
     [0x01, seg] @ spec_be16 flags @ spec_be32 addr @ spec_be32 (word_of_nat (length payload)) @ payload"
| "spec_record_bytes (SpecEntry addr seg) = [0x02] @ spec_be32 addr @ [seg]"

definition spec_end_bytes :: "u32 \<Rightarrow> u8 list" where
  "spec_end_bytes c = [0x03] @ spec_be32 c"

text \<open>A well-formed record stream: records, then one End record, and nothing after it.\<close>

definition spec_stream :: "spec_record list \<Rightarrow> u32 \<Rightarrow> u8 list" where
  "spec_stream rs c = concat (map spec_record_bytes rs) @ spec_end_bytes c"

text \<open>The fields that displaying a record of the stream should show.\<close>

fun spec_fields :: "spec_record \<Rightarrow> record_fields" where
  "spec_fields (SpecData seg flags addr payload) =
     DataRecord (ucast seg) (ucast flags) addr (word_of_nat (length payload))"
| "spec_fields (SpecEntry addr seg) = EntryRecord addr (ucast seg)"

text \<open>
  The number of bytes that the record starting at offset \<open>r\<close> of a buffer occupies by the
  format, and whether the whole record lies within the buffer.
\<close>

definition spec_record_extent :: "u8 list \<Rightarrow> nat \<Rightarrow> nat" where
  "spec_record_extent bf r =
     (if bf ! r = 0x01 then 12 + spec_be_value (take 4 (drop (r + 8) bf))
      else if bf ! r = 0x02 then 6
      else if bf ! r = 0x03 then 5
      else 1)"

definition spec_record_in_buffer :: "u8 list \<Rightarrow> nat \<Rightarrow> bool" where
  "spec_record_in_buffer bf r \<longleftrightarrow> r < length bf \<and> r + spec_record_extent bf r \<le> length bf"

text \<open>
  A record stream of one Data record (that of the example in spec.md, section 8), one Entry
  record and the End record.
\<close>

definition example_records :: "u8 list" where
  "example_records =
     [0x01, 0x00, 0x00, 0x00, 0x00, 0x00, 0x00, 0x00, 0x00, 0x00, 0x00, 0x04, 0xDE, 0xAD, 0xBE, 0xEF,
      0x02, 0x00, 0x00, 0x10, 0x00, 0x05,
      0x03, 0x00, 0x00, 0x00, 0x00]"

text \<open>The bytes the checksum loop adds up: those at the offsets below \<open>crcPos\<close>.\<close>

definition checksummed_bytes :: "u8 list \<Rightarrow> u8 list" where
  "checksummed_bytes f = take (unat ((word_of_nat (length f) :: u32) - 4)) f"

section \<open>Machine arithmetic\<close>

lemma unat_inc: "(i::u32) < m \<Longrightarrow> unat (i + 1) = Suc (unat i)"
  by unat_arith

lemma checksum_loop_sum:
  "unat crcPos - unat i \<le> length rest \<Longrightarrow> i \<le> crcPos \<Longrightarrow>
   checksum_loop rest i crcPos c = Inr (c + sum_list (map ucast (take (unat crcPos - unat i) rest)))"
proof (induction rest arbitrary: i c)
  case Nil
  then have "unat crcPos \<le> unat i" by simp
  then have "\<not> i < crcPos" by (simp add: word_less_nat_alt)
  then show ?case by simp
next
  case (Cons b rest)
  show ?case
  proof (cases "i < crcPos")
    case True
    then have s: "unat (i + 1) = Suc (unat i)" by (rule unat_inc)
    from True have lt: "unat i < unat crcPos" by (simp add: word_less_nat_alt)
    have le: "i + 1 \<le> crcPos" using True by (rule inc_le)
    have len: "unat crcPos - unat (i + 1) \<le> length rest" using Cons.prems(1) s by simp
    obtain k where k: "unat crcPos - unat i = Suc k" using lt by (cases "unat crcPos - unat i") simp_all
    then have k': "unat crcPos - unat (i + 1) = k" using s by simp
    have tk: "take (unat crcPos - unat i) (b # rest) = b # take (unat crcPos - unat (i + 1)) rest"
      unfolding k k' by simp
    show ?thesis using True Cons.IH [OF len le] tk by (simp add: add.assoc)
  next
    case False
    with Cons.prems(2) have "i = crcPos" by simp
    then show ?thesis by simp
  qed
qed

lemma checksum_loop_eof:
  "unat i + length rest < unat crcPos \<Longrightarrow>
   checksum_loop rest i crcPos c = Inl CouldNotCalculateChecksum"
proof (induction rest arbitrary: i c)
  case Nil
  then show ?case by (simp add: word_less_nat_alt)
next
  case (Cons b rest)
  then have lt: "i < crcPos" by (simp add: word_less_nat_alt)
  then have s: "unat (i + 1) = Suc (unat i)" by (rule unat_inc)
  with Cons.prems have "unat (i + 1) + length rest < unat crcPos" by simp
  from Cons.IH [OF this] lt show ?case by simp
qed

lemma crcPos_unat: "4 \<le> n \<Longrightarrow> n < 2 ^ 32 \<Longrightarrow> unat ((word_of_nat n :: u32) - 4) = n - 4"
  by (simp add: unat_sub_if_size unat_of_nat word_size)

lemma crcPos_short: "n < 4 \<Longrightarrow> unat ((word_of_nat n :: u32) - 4) = 2 ^ 32 - 4 + n"
  by (simp add: unat_sub_if_size unat_of_nat word_size)

lemma crcPos_le: "4 \<le> n \<Longrightarrow> unat ((word_of_nat n :: u32) - 4) \<le> n"
proof (cases "n < 2 ^ 32")
  case True
  assume "4 \<le> n"
  then show ?thesis using True by (simp add: crcPos_unat)
next
  case False
  have "unat ((word_of_nat n :: u32) - 4) < 2 ^ 32"
    using unsigned_less [of "(word_of_nat n :: u32) - 4"] by simp
  with False show ?thesis by simp
qed

lemma checksum_total:
  assumes "4 \<le> length f"
  shows "DisplayCalculatedChecksum f = Inr (NOT (sum_list (map ucast (checksummed_bytes f))) + 1)"
proof -
  have "checksum_loop f 0 ((word_of_nat (length f) :: u32) - 4) 0 =
     Inr (0 + sum_list (map ucast (take (unat ((word_of_nat (length f) :: u32) - 4) - unat (0::u32)) f)))"
    by (rule checksum_loop_sum) (simp_all add: crcPos_le [OF assms])
  then show ?thesis
    by (simp add: DisplayCalculatedChecksum_def checksummed_bytes_def)
qed


lemma bit_ucast_u8: "bit (ucast (b :: u8) :: u32) n \<Longrightarrow> n < 8"
  by (auto simp: bit_simps dest: bit_imp_le_length)

lemma unat_ucast_u8: "unat (ucast (b :: u8) :: u32) = unat b"
  by (simp add: unsigned_ucast_eq take_bit_nat_eq_self_iff) (rule order_less_trans [OF unsigned_less], simp)

lemma unat_u8_less: "unat (b :: u8) < 256"
  using unsigned_less [of b] by simp

lemma unat_push_ucast:
  "n \<le> 24 \<Longrightarrow> unat (push_bit n (ucast (b :: u8) :: u32)) = unat b * 2 ^ n"
proof -
  assume n: "n \<le> 24"
  have "unat b * 2 ^ n < 2 ^ 8 * 2 ^ n" using unat_u8_less [of b] by simp
  also have "\<dots> = 2 ^ (8 + n)" by (simp add: power_add)
  also have "\<dots> \<le> (2::nat) ^ 32" using n by (intro power_increasing) simp_all
  finally have "unat b * 2 ^ n < 2 ^ 32" .
  then have "take_bit 32 (push_bit n (unat b)) = unat b * 2 ^ n"
    by (simp add: push_bit_eq_mult take_bit_nat_eq_self_iff)
  moreover have "unat (push_bit n (ucast b :: u32)) = take_bit 32 (push_bit n (unat b))"
    by (simp only: unsigned_push_bit_eq unat_ucast_u8) simp
  ultimately show ?thesis by simp
qed

lemma shift_or4_plus:
  "shift_or4 b0 b1 b2 b3 =
     push_bit 24 (ucast b0) + (push_bit 16 (ucast b1) + (push_bit 8 (ucast b2) + ucast b3))"
proof -
  have 1: "push_bit 8 (ucast b2) + (ucast b3 :: u32) = push_bit 8 (ucast b2) OR ucast b3"
    by (rule disjunctive_add) (auto simp: bit_push_bit_iff dest: bit_ucast_u8)
  have 2: "push_bit 16 (ucast b1) + (push_bit 8 (ucast b2) OR (ucast b3 :: u32)) =
           push_bit 16 (ucast b1) OR (push_bit 8 (ucast b2) OR ucast b3)"
    by (rule disjunctive_add) (auto simp: bit_push_bit_iff bit_or_iff dest!: bit_ucast_u8)
  have 3: "push_bit 24 (ucast b0) + (push_bit 16 (ucast b1) OR (push_bit 8 (ucast b2) OR (ucast b3 :: u32))) =
           push_bit 24 (ucast b0) OR (push_bit 16 (ucast b1) OR (push_bit 8 (ucast b2) OR ucast b3))"
    by (rule disjunctive_add) (auto simp: bit_push_bit_iff bit_or_iff dest!: bit_ucast_u8)
  show ?thesis
    by (simp add: shift_or4_def 1 2 3 or.assoc)
qed

lemma shift_or4_unat:
  "unat (shift_or4 b0 b1 b2 b3) = unat b0 * 2 ^ 24 + unat b1 * 2 ^ 16 + unat b2 * 2 ^ 8 + unat b3"
proof -
  have "unat (shift_or4 b0 b1 b2 b3) =
        (unat b0 * 2 ^ 24 + (unat b1 * 2 ^ 16 + (unat b2 * 2 ^ 8 + unat b3))) mod 2 ^ 32"
    unfolding shift_or4_plus
    by (simp only: unat_word_ariths unat_push_ucast unat_ucast_u8 mod_add_right_eq mod_add_left_eq le_refl) (simp add: unat_push_ucast unat_ucast_u8 mod_simps)
  also have "\<dots> = unat b0 * 2 ^ 24 + (unat b1 * 2 ^ 16 + (unat b2 * 2 ^ 8 + unat b3))"
    using unat_u8_less [of b0] unat_u8_less [of b1] unat_u8_less [of b2] unat_u8_less [of b3]
    by simp
  finally show ?thesis by simp
qed

lemma shift_or2_plus: "shift_or2 b0 b1 = push_bit 8 (ucast b0) + ucast b1"
proof -
  have "push_bit 8 (ucast b0) + (ucast b1 :: u32) = push_bit 8 (ucast b0) OR ucast b1"
    by (rule disjunctive_add) (auto simp: bit_push_bit_iff dest: bit_ucast_u8)
  then show ?thesis by (simp add: shift_or2_def)
qed

lemma shift_or2_unat: "unat (shift_or2 b0 b1) = unat b0 * 2 ^ 8 + unat b1"
proof -
  have "unat (shift_or2 b0 b1) = (unat b0 * 2 ^ 8 + unat b1) mod 2 ^ 32"
    unfolding shift_or2_plus by (simp add: unat_word_ariths unat_push_ucast unat_ucast_u8)
  also have "\<dots> = unat b0 * 2 ^ 8 + unat b1"
    using unat_u8_less [of b0] unat_u8_less [of b1] by simp
  finally show ?thesis .
qed


lemma shift_or4_be: "unat (shift_or4 b0 b1 b2 b3) = spec_be_value [b0, b1, b2, b3]"
  by (simp add: shift_or4_unat spec_be_value_def)

lemma shift_or2_be: "unat (shift_or2 b0 b1) = spec_be_value [b0, b1]"
  by (simp add: shift_or2_unat spec_be_value_def)

lemma shift_or4_spec_be32:
  "shift_or4 (ucast (drop_bit 24 w)) (ucast (drop_bit 16 w)) (ucast (drop_bit 8 w)) (ucast w) = w"
proof (rule bit_word_eqI)
  fix n :: nat
  assume "n < LENGTH(32)"
  then have n: "n < 32" by simp
  consider "n < 8" | "8 \<le> n" "n < 16" | "16 \<le> n" "n < 24" | "24 \<le> n"
    by linarith
  then show "bit (shift_or4 (ucast (drop_bit 24 w)) (ucast (drop_bit 16 w))
                   (ucast (drop_bit 8 w)) (ucast w)) n = bit w n"
    using n by cases (auto simp: shift_or4_def bit_simps)
qed

lemma shift_or2_spec_be16: "shift_or2 (ucast (drop_bit 8 w)) (ucast (w :: 16 word)) = ucast w"
proof (rule bit_word_eqI)
  fix n :: nat
  assume "n < LENGTH(32)"
  consider "n < 8" | "8 \<le> n" "n < 16" | "16 \<le> n"
    by linarith
  then show "bit (shift_or2 (ucast (drop_bit 8 w)) (ucast w)) n = bit (ucast w :: u32) n"
    by cases (auto simp: shift_or2_def bit_simps dest: bit_imp_le_length)
qed

lemma unat_byte_sum:
  "unat (sum_list (map ucast (xs :: u8 list)) :: u32) = sum_list (map unat xs) mod 2 ^ 32"
proof (induction xs)
  case Nil
  show ?case by simp
next
  case (Cons b xs)
  have "unat (ucast b + sum_list (map ucast xs) :: u32) =
        (unat b + unat (sum_list (map ucast xs) :: u32)) mod 2 ^ 32"
    by (simp add: unat_word_ariths unat_ucast_u8)
  also have "\<dots> = (unat b + sum_list (map unat xs)) mod 2 ^ 32"
    by (simp add: Cons.IH mod_add_right_eq)
  finally show ?case by simp
qed

lemma take4_drop:
  "k + 4 \<le> length f \<Longrightarrow> take 4 (drop k f) = [f ! k, f ! (k + 1), f ! (k + 2), f ! (k + 3)]"
proof (rule nth_equalityI)
  assume "k + 4 \<le> length f"
  then show "length (take 4 (drop k f)) = length [f ! k, f ! (k + 1), f ! (k + 2), f ! (k + 3)]"
    by simp
next
  fix i
  assume len: "k + 4 \<le> length f" and "i < length (take 4 (drop k f))"
  then have "i = 0 \<or> i = 1 \<or> i = 2 \<or> i = 3" by auto
  then show "take 4 (drop k f) ! i = [f ! k, f ! (k + 1), f ! (k + 2), f ! (k + 3)] ! i"
    using len by auto
qed

lemma take2_drop:
  "k + 2 \<le> length f \<Longrightarrow> take 2 (drop k f) = [f ! k, f ! (k + 1)]"
proof (rule nth_equalityI)
  assume "k + 2 \<le> length f"
  then show "length (take 2 (drop k f)) = length [f ! k, f ! (k + 1)]"
    by simp
next
  fix i
  assume len: "k + 2 \<le> length f" and "i < length (take 2 (drop k f))"
  then have "i = 0 \<or> i = 1" by auto
  then show "take 2 (drop k f) ! i = [f ! k, f ! (k + 1)] ! i"
    using len by auto
qed

section \<open>The header\<close>

text \<open>
  Claim C5. For every byte buffer of at least 14 bytes, \<open>DisplayHeader\<close> produces a
  header whose fields are the big-endian values of consecutive bytes: \<open>magic_number\<close> of
  bytes 0-3, \<open>program_flags\<close> of bytes 4-7, \<open>number_of_program_bytes\<close> of bytes 8-11 and
  \<open>version_information\<close> of bytes 12-13.
\<close>

theorem DisplayHeader_big_endian:
  assumes "14 \<le> length f"
  shows "\<exists>h. DisplayHeader f = Inr h
           \<and> unat (magic_number h) = spec_be_value (take 4 f)
           \<and> unat (program_flags h) = spec_be_value (take 4 (drop 4 f))
           \<and> unat (number_of_program_bytes h) = spec_be_value (take 4 (drop 8 f))
           \<and> unat (version_information h) = spec_be_value (take 2 (drop 12 f))"
proof -
  have t0: "take 4 f = [f ! 0, f ! 1, f ! 2, f ! 3]"
    using take4_drop [of 0 f] assms by (simp add: numeral_2_eq_2)
  have t4: "take 4 (drop 4 f) = [f ! 4, f ! 5, f ! 6, f ! 7]"
    using take4_drop [of 4 f] assms by simp
  have t8: "take 4 (drop 8 f) = [f ! 8, f ! 9, f ! 10, f ! 11]"
    using take4_drop [of 8 f] assms by simp
  have t12: "take 2 (drop 12 f) = [f ! 12, f ! 13]"
    using take2_drop [of 12 f] assms by simp
  show ?thesis
    using assms
    by (simp add: DisplayHeader_def HEADER_SIZE_BYTES_def t0 t4 t8 t12 shift_or4_be shift_or2_be)
qed

theorem DisplayHeader_big_endian_witness:
  "14 \<le> length [0, 0, 0, 1, 0, 0, 0, 0, 0, 0, 0, 4, 1, 0 :: u8]
   \<and> DisplayHeader [0, 0, 0, 1, 0, 0, 0, 0, 0, 0, 0, 4, 1, 0] =
       Inr \<lparr> magic_number = 1, program_flags = 0, number_of_program_bytes = 4,
             version_information = 0x0100 \<rparr>
   \<and> spec_be_value (take 2 (drop 12 [0, 0, 0, 1, 0, 0, 0, 0, 0, 0, 0, 4, 1, 0])) = 256"
  using DisplayHeader_big_endian [of "[0, 0, 0, 1, 0, 0, 0, 0, 0, 0, 0, 4, 1, 0]"]
  by (simp add: DisplayHeader_def HEADER_SIZE_BYTES_def shift_or4_def shift_or2_def spec_be_value_def)

section \<open>The size check\<close>

text \<open>
  A file of at least \<open>MAX_FILE_SIZE_BYTES\<close> bytes whose length fits \<^verbatim>\<open>int\<close> is
  rejected, and \<open>main\<close> then runs no other stage.
\<close>

lemma DisplayFileSize_rejects:
  assumes "MAX_FILE_SIZE_BYTES \<le> length f" and "length f < 2 ^ 31"
  shows "DisplayFileSize f = Inl FileSizeTooLarge"
proof -
  have "sint (word_of_nat (length f) :: u32) = int (length f)"
    using assms(2) by (simp add: signed_of_nat signed_take_bit_int_eq_self)
  then show ?thesis using assms(1) by (simp add: DisplayFileSize_def)
qed

lemma main_stops_at_size: "DisplayFileSize f = Inl e \<Longrightarrow> main hide junk f = Some [Failed e]"
  by (simp add: main_def)

section \<open>The checksum\<close>

text \<open>
  For a file of at least 4 and fewer than \<open>2 ^ 32\<close> bytes, the calculated checksum is the
  two's-complement negation, modulo \<open>2 ^ 32\<close>, of the sum of all bytes from offset 0 up to
  \<open>length f - 4\<close> exclusive, each byte added as an unsigned 8-bit value into a 32-bit
  accumulator that wraps around; that is, \<open>NOT sum + 1\<close>.
\<close>

theorem DisplayCalculatedChecksum_negated_sum:
  assumes "4 \<le> length f" and "length f < 2 ^ 32"
  shows "\<exists>sum. unat sum = sum_list (map unat (take (length f - 4) f)) mod 2 ^ 32
           \<and> DisplayCalculatedChecksum f = Inr (- sum)
           \<and> - sum = NOT sum + 1"
proof -
  have u: "unat ((word_of_nat (length f) :: u32) - 4) = length f - 4"
    using assms by (rule crcPos_unat)
  have "DisplayCalculatedChecksum f =
        Inr (NOT (sum_list (map ucast (take (length f - 4) f))) + 1)"
    using checksum_total [OF assms(1)] by (simp add: checksummed_bytes_def u)
  then show ?thesis
    by (intro exI [of _ "sum_list (map ucast (take (length f - 4) f))"])
       (simp add: unat_byte_sum minus_eq_not_plus_1)
qed

theorem DisplayCalculatedChecksum_negated_sum_witness:
  "4 \<le> length [1, 2, 3, 4, 5, 6, 7 :: u8] \<and> length [1, 2, 3, 4, 5, 6, 7 :: u8] < 2 ^ 32
   \<and> DisplayCalculatedChecksum [1, 2, 3, 4, 5, 6, 7] = Inr (- 6)"
  using DisplayCalculatedChecksum_negated_sum [of "[1, 2, 3, 4, 5, 6, 7]"]
  by (simp add: DisplayCalculatedChecksum_def)

text \<open>
  Claim C8. For every file shorter than 4 bytes, \<open>DisplayCalculatedChecksum\<close> fails (it
  prints \<^verbatim>\<open>Could not calculate checksum.\<close> and returns 1) and produces no checksum:
  \<open>crcPos\<close> wraps around to at least \<open>2 ^ 32 - 4\<close> and \<^verbatim>\<open>fread\<close> reaches the end of
  the file first.
\<close>

theorem DisplayCalculatedChecksum_short:
  assumes "length f < 4"
  shows "DisplayCalculatedChecksum f = Inl CouldNotCalculateChecksum"
proof -
  have u: "unat ((word_of_nat (length f) :: u32) - 4) = 2 ^ 32 - 4 + length f"
    using assms by (rule crcPos_short)
  have "checksum_loop f 0 ((word_of_nat (length f) :: u32) - 4) 0 = Inl CouldNotCalculateChecksum"
    by (rule checksum_loop_eof) (simp add: u)
  then show ?thesis by (simp add: DisplayCalculatedChecksum_def)
qed

theorem DisplayCalculatedChecksum_short_witness:
  "length [0x53, 0x49, 0x4D :: u8] < 4
   \<and> DisplayCalculatedChecksum [0x53, 0x49, 0x4D] = Inl CouldNotCalculateChecksum"
  using DisplayCalculatedChecksum_short [of "[0x53, 0x49, 0x4D]"] by simp



section \<open>One record\<close>

lemma ucast_u8_eq_iff: "(ucast (b :: u8) :: u32) = ucast c \<longleftrightarrow> b = c"
  by (simp add: word_unat_eq_iff unat_ucast_u8)

lemma tag_eq_1: "(ucast (b :: u8) :: u32) = 1 \<longleftrightarrow> b = 1"
  using ucast_u8_eq_iff [of b 1] by simp

lemma tag_eq_2: "(ucast (b :: u8) :: u32) = 2 \<longleftrightarrow> b = 2"
  using ucast_u8_eq_iff [of b 2] by simp

lemma tag_eq_3: "(ucast (b :: u8) :: u32) = 3 \<longleftrightarrow> b = 3"
  using ucast_u8_eq_iff [of b 3] by simp

lemmas tag_simps = DATA_RECORD_TAG_def ENTRY_RECORD_TAG_def END_RECORD_TAG_def tag_eq_1 tag_eq_2 tag_eq_3

lemma program_bytes_loop_upt:
  "i \<le> bound \<Longrightarrow> program_bytes_loop i bound = map word_of_nat [unat i..<unat bound]"
proof (induction i bound rule: program_bytes_loop.induct)
  case (1 i bound)
  show ?case
  proof (cases "i < bound")
    case True
    then have s: "unat (i + 1) = Suc (unat i)" by (rule unat_inc)
    from True have lt: "unat i < unat bound" by (simp add: word_less_nat_alt)
    have le: "i + 1 \<le> bound" using True by (rule inc_le)
    have "program_bytes_loop i bound = i # program_bytes_loop (i + 1) bound"
      using True by (subst program_bytes_loop.simps) simp
    also have "\<dots> = i # map word_of_nat [Suc (unat i)..<unat bound]"
      using "1.IH" [OF True le] s by simp
    also have "\<dots> = map word_of_nat [unat i..<unat bound]"
      using lt by (simp add: upt_conv_Cons)
    finally show ?thesis .
  next
    case False
    with "1.prems" have "i = bound" by simp
    then show ?thesis by (subst program_bytes_loop.simps) simp
  qed
qed

lemma program_bytes_shown:
  assumes "unat n < 2 ^ 32 - 12"
  shows "map (\<lambda>i. g (record + unat i)) (program_bytes_loop 12 (12 + n)) =
         map g [record + 12..<record + 12 + unat n]"
proof -
  have u: "unat (12 + n) = 12 + unat n"
    using assms by (simp add: unat_word_ariths)
  then have le: "(12 :: u32) \<le> 12 + n"
    by (simp add: word_le_nat_alt)
  have "map (\<lambda>i. g (record + unat i)) (program_bytes_loop 12 (12 + n)) =
        map (\<lambda>k. g (record + unat (word_of_nat k :: u32))) [12..<12 + unat n]"
    unfolding program_bytes_loop_upt [OF le] u map_map comp_def by simp
  also have "\<dots> = map (\<lambda>k. g (record + k)) [12..<12 + unat n]"
    using assms by (intro map_cong refl) (simp add: unat_of_nat)
  also have "\<dots> = map g (map (\<lambda>k. k + record) [12..<12 + unat n])"
    by (simp add: comp_def add.commute)
  also have "\<dots> = map g [record + 12..<record + 12 + unat n]"
    by (rule arg_cong [where f = "map g"], rule map_upt_eqI) simp_all
  finally show ?thesis .
qed

lemma fields_2: "map mem [record + 2..<record + 4] = [mem (record + 2), mem (record + 3)]"
  by (simp add: eval_nat_numeral)

lemma fields_4:
  "map mem [record + 1..<record + 5] = [mem (record + 1), mem (record + 2), mem (record + 3), mem (record + 4)]"
  "map mem [record + 4..<record + 8] = [mem (record + 4), mem (record + 5), mem (record + 6), mem (record + 7)]"
  "map mem [record + 8..<record + 12] = [mem (record + 8), mem (record + 9), mem (record + 10), mem (record + 11)]"
  by (simp_all add: eval_nat_numeral)

lemma DisplayRecord_data:
  assumes "mem record = 0x01"
  shows "DisplayRecord mem hide record =
     \<lparr> decoded = DataRecord (ucast (mem (record + 1)))
                   (shift_or2 (mem (record + 2)) (mem (record + 3)))
                   (shift_or4 (mem (record + 4)) (mem (record + 5)) (mem (record + 6)) (mem (record + 7)))
                   (shift_or4 (mem (record + 8)) (mem (record + 9)) (mem (record + 10)) (mem (record + 11))),
       program_bytes =
         (if hide then None
          else Some (map (\<lambda>i. mem (record + unat i))
                 (program_bytes_loop 12
                    (12 + shift_or4 (mem (record + 8)) (mem (record + 9)) (mem (record + 10)) (mem (record + 11)))))),
       bytes_read = [record..<record + 12] @
         (if hide then []
          else map (\<lambda>i. record + unat i)
                 (program_bytes_loop 12
                    (12 + shift_or4 (mem (record + 8)) (mem (record + 9)) (mem (record + 10)) (mem (record + 11))))),
       next_record = Some (record + 12 +
          unat (shift_or4 (mem (record + 8)) (mem (record + 9)) (mem (record + 10)) (mem (record + 11)))) \<rparr>"
  using assms by (simp add: DisplayRecord_def Let_def DATA_RECORD_TAG_def)

lemma DisplayRecord_entry:
  assumes "mem record = 0x02"
  shows "DisplayRecord mem hide record =
     \<lparr> decoded = EntryRecord
                   (shift_or4 (mem (record + 1)) (mem (record + 2)) (mem (record + 3)) (mem (record + 4)))
                   (ucast (mem (record + 5))),
       program_bytes = None,
       bytes_read = [record..<record + 6],
       next_record = Some (record + 6) \<rparr>"
  using assms by (simp add: DisplayRecord_def Let_def DATA_RECORD_TAG_def ENTRY_RECORD_TAG_def)

lemma DisplayRecord_end:
  assumes "mem record = 0x03"
  shows "DisplayRecord mem hide record =
     \<lparr> decoded = EndRecord
                   (shift_or4 (mem (record + 1)) (mem (record + 2)) (mem (record + 3)) (mem (record + 4))),
       program_bytes = None,
       bytes_read = [record..<record + 5],
       next_record = None \<rparr>"
  using assms
  by (simp add: DisplayRecord_def Let_def DATA_RECORD_TAG_def ENTRY_RECORD_TAG_def END_RECORD_TAG_def)

lemma DisplayRecord_other:
  assumes "mem record \<noteq> 0x01" and "mem record \<noteq> 0x02" and "mem record \<noteq> 0x03"
  shows "DisplayRecord mem hide record =
     \<lparr> decoded = NoRecord, program_bytes = None, bytes_read = [record], next_record = None \<rparr>"
  using assms by (simp add: DisplayRecord_def Let_def tag_simps)

lemma DisplayRecords_loop_stop:
  "next_record (DisplayRecord mem hide record) = None \<Longrightarrow>
   DisplayRecords_loop mem hide record = Some [DisplayRecord mem hide record]"
  by (subst DisplayRecords_loop.simps) (simp add: Let_def)

lemma DisplayRecords_loop_continue:
  "next_record (DisplayRecord mem hide record) = Some p \<Longrightarrow>
   DisplayRecords_loop mem hide record =
     Option.bind (DisplayRecords_loop mem hide p) (\<lambda>rest. Some (DisplayRecord mem hide record # rest))"
  by (subst DisplayRecords_loop.simps) (simp add: Let_def)

lemma DisplayRecords_small:
  assumes "HEADER_SIZE_BYTES < length f" and "length f \<le> MAX_FILE_SIZE_BYTES"
  shows "DisplayRecords hide junk f =
         map_option Inr (DisplayRecords_loop (bf_mem (drop HEADER_SIZE_BYTES f) junk) hide 0)"
  using assms by (simp add: DisplayRecords_def)

text \<open>
  Claim C2 says that a tag byte other than 0x01, 0x02 and 0x03 makes decoding fail with an
  error. At the file below, whose record stream is the single byte 0x07,
  \<open>DisplayRecords\<close> returns 0 like after a complete walk, having displayed no record.
\<close>

theorem unknown_tag_counterexample:
  "DisplayRecords False zero_junk ([0, 0, 0, 1, 0, 0, 0, 0, 0, 0, 0, 4, 1, 0] @ [0x07]) =
     Some (Inr [\<lparr> decoded = NoRecord, program_bytes = None, bytes_read = [0],
                  next_record = None \<rparr>])"
proof -
  have "DisplayRecords_loop (bf_mem [0x07] zero_junk) False 0 =
        Some [\<lparr> decoded = NoRecord, program_bytes = None, bytes_read = [0], next_record = None \<rparr>]"
    by code_simp
  then show ?thesis
    by (simp add: DisplayRecords_small HEADER_SIZE_BYTES_def MAX_FILE_SIZE_BYTES_def)
qed

text \<open>
  Claim C2, amended. For every buffer whose next record begins with a tag byte other than
  0x01, 0x02 and 0x03, \<open>DisplayRecord\<close> reads the tag only, displays no record and returns
  the null pointer, so that the walk stops at that offset without reporting an error.
\<close>

theorem unknown_tag_stops_silently:
  assumes "mem record \<noteq> 0x01" and "mem record \<noteq> 0x02" and "mem record \<noteq> 0x03"
  shows "DisplayRecord mem hide record =
           \<lparr> decoded = NoRecord, program_bytes = None, bytes_read = [record], next_record = None \<rparr>
         \<and> DisplayRecords_loop mem hide record = Some [DisplayRecord mem hide record]"
proof -
  have s: "DisplayRecord mem hide record =
           \<lparr> decoded = NoRecord, program_bytes = None, bytes_read = [record], next_record = None \<rparr>"
    using assms by (rule DisplayRecord_other)
  then have "next_record (DisplayRecord mem hide record) = None" by simp
  then have "DisplayRecords_loop mem hide record = Some [DisplayRecord mem hide record]"
    by (rule DisplayRecords_loop_stop)
  with s show ?thesis by simp
qed

theorem unknown_tag_stops_silently_witness:
  "bf_mem [0x07] zero_junk 0 \<noteq> 0x01 \<and> bf_mem [0x07] zero_junk 0 \<noteq> 0x02
   \<and> bf_mem [0x07] zero_junk 0 \<noteq> 0x03
   \<and> DisplayRecords_loop (bf_mem [0x07] zero_junk) True 0 =
        Some [\<lparr> decoded = NoRecord, program_bytes = None, bytes_read = [0], next_record = None \<rparr>]"
  using unknown_tag_stops_silently [of "bf_mem [0x07] zero_junk" 0 True]
  by (simp add: bf_mem_def)

text \<open>
  Claim C4 says that a Data record's payload bytes are read at every step, that the End
  record advances the cursor by 5, and that the End record alone ends the walk. With
  \<open>hide_program_bytes\<close> set no payload byte is read; at the End record the pointer
  returned is null; and the walk ends in the same way at a tag byte 0xFF.
\<close>

theorem DisplayRecord_by_tag_counterexample:
  "bf_mem example_records zero_junk 0 = 0x01
   \<and> bytes_read (DisplayRecord (bf_mem example_records zero_junk) True 0) = [0..<12]
   \<and> program_bytes (DisplayRecord (bf_mem example_records zero_junk) True 0) = None
   \<and> bf_mem example_records zero_junk 22 = 0x03
   \<and> next_record (DisplayRecord (bf_mem example_records zero_junk) False 22) = None
   \<and> bf_mem [0xFF] zero_junk 0 = 0xFF
   \<and> DisplayRecords_loop (bf_mem [0xFF] zero_junk) False 0 =
        Some [\<lparr> decoded = NoRecord, program_bytes = None, bytes_read = [0], next_record = None \<rparr>]"
  by code_simp

text \<open>
  The steps above are stated over any memory. What the program does is known only where
  the bytes read lie in the buffer, so the properties of a step are stated for records that
  lie within the bytes loaded: there the memory read is the buffer itself.
\<close>

lemma bf_mem_loaded: "i < length bf \<Longrightarrow> bf_mem bf junk i = bf ! i"
  by (simp add: bf_mem_def)

lemma bf_mem_slice:
  "a \<le> b \<Longrightarrow> b \<le> length bf \<Longrightarrow> map (bf_mem bf junk) [a..<b] = take (b - a) (drop a bf)"
  by (auto simp: list_eq_iff_nth_eq bf_mem_def)

lemma shift_or4_slice:
  "k + 4 \<le> length bf \<Longrightarrow>
   unat (shift_or4 (bf ! k) (bf ! (k + 1)) (bf ! (k + 2)) (bf ! (k + 3))) =
     spec_be_value (take 4 (drop k bf))"
  by (simp only: take4_drop shift_or4_be)

lemma shift_or2_slice:
  "k + 2 \<le> length bf \<Longrightarrow>
   unat (shift_or2 (bf ! k) (bf ! (k + 1))) = spec_be_value (take 2 (drop k bf))"
  by (simp only: take2_drop shift_or2_be)

lemma DisplayRecord_data_in_buffer:
  assumes cap: "length bf \<le> MAX_FILE_SIZE_BYTES - HEADER_SIZE_BYTES"
    and tag: "bf ! r = 0x01"
    and fit: "r + (12 + spec_be_value (take 4 (drop (r + 8) bf))) \<le> length bf"
  shows "DisplayRecord (bf_mem bf junk) hide r =
     \<lparr> decoded = DataRecord (ucast (bf ! (r + 1)))
                   (shift_or2 (bf ! (r + 2)) (bf ! (r + 3)))
                   (shift_or4 (bf ! (r + 4)) (bf ! (r + 5)) (bf ! (r + 6)) (bf ! (r + 7)))
                   (shift_or4 (bf ! (r + 8)) (bf ! (r + 9)) (bf ! (r + 10)) (bf ! (r + 11))),
       program_bytes =
         (if hide then None
          else Some (take (spec_be_value (take 4 (drop (r + 8) bf))) (drop (r + 12) bf))),
       bytes_read =
         (if hide then [r..<r + 12]
          else [r..<r + 12 + spec_be_value (take 4 (drop (r + 8) bf))]),
       next_record = Some (r + 12 + spec_be_value (take 4 (drop (r + 8) bf))) \<rparr>"
    and "unat (shift_or4 (bf ! (r + 8)) (bf ! (r + 9)) (bf ! (r + 10)) (bf ! (r + 11))) =
         spec_be_value (take 4 (drop (r + 8) bf))"
proof -
  let ?mem = "bf_mem bf junk"
  let ?n = "shift_or4 (bf ! (r + 8)) (bf ! (r + 9)) (bf ! (r + 10)) (bf ! (r + 11))"
  let ?len = "spec_be_value (take 4 (drop (r + 8) bf))"
  from fit have in12: "r + 12 \<le> length bf" by simp
  have m: "\<And>k. k < 12 \<Longrightarrow> ?mem (r + k) = bf ! (r + k)"
    using in12 by (simp add: bf_mem_def)
  have b: "?mem (r + 1) = bf ! (r + 1)" "?mem (r + 2) = bf ! (r + 2)" "?mem (r + 3) = bf ! (r + 3)"
    "?mem (r + 4) = bf ! (r + 4)" "?mem (r + 5) = bf ! (r + 5)" "?mem (r + 6) = bf ! (r + 6)"
    "?mem (r + 7) = bf ! (r + 7)" "?mem (r + 8) = bf ! (r + 8)" "?mem (r + 9) = bf ! (r + 9)"
    "?mem (r + 10) = bf ! (r + 10)" "?mem (r + 11) = bf ! (r + 11)"
    by (rule m, simp)+
  have m0: "?mem r = bf ! r"
    using m [of 0] by simp
  have e: "r + 8 + 1 = r + 9" "r + 8 + 2 = r + 10" "r + 8 + 3 = r + 11"
    by simp_all
  have "r + 8 + 4 \<le> length bf"
    using in12 by simp
  from shift_or4_slice [OF this] have un: "unat ?n = ?len"
    unfolding e .
  then show "unat ?n = ?len" .
  have small: "unat ?n < 2 ^ 32 - 12"
    using fit cap un by (simp add: MAX_FILE_SIZE_BYTES_def HEADER_SIZE_BYTES_def)
  have tag': "?mem r = 0x01"
    using tag m0 by simp
  note s = DisplayRecord_data [of ?mem r hide, OF tag']
  have n': "shift_or4 (?mem (r + 8)) (?mem (r + 9)) (?mem (r + 10)) (?mem (r + 11)) = ?n"
    unfolding b ..
  have shown: "map (\<lambda>i. ?mem (r + unat i)) (program_bytes_loop 12 (12 + ?n)) =
               take ?len (drop (r + 12) bf)"
  proof -
    have "map (\<lambda>i. ?mem (r + unat i)) (program_bytes_loop 12 (12 + ?n)) =
          map ?mem [r + 12..<r + 12 + unat ?n]"
      using small by (rule program_bytes_shown)
    also have "\<dots> = take (r + 12 + unat ?n - (r + 12)) (drop (r + 12) bf)"
      by (rule bf_mem_slice) (use fit un in simp_all)
    finally show ?thesis by (simp add: un)
  qed
  have offs: "map (\<lambda>i. r + unat i) (program_bytes_loop 12 (12 + ?n)) = [r + 12..<r + 12 + ?len]"
  proof -
    have "map (\<lambda>i. id (r + unat i)) (program_bytes_loop 12 (12 + ?n)) =
          map id [r + 12..<r + 12 + unat ?n]"
      using small by (rule program_bytes_shown)
    then show ?thesis by (simp add: un)
  qed
  have app: "[r..<r + 12] @ [r + 12..<r + 12 + ?len] = [r..<r + 12 + ?len]"
    by (rule upt_add_eq_append [symmetric]) simp
  show "DisplayRecord ?mem hide r =
     \<lparr> decoded = DataRecord (ucast (bf ! (r + 1)))
                   (shift_or2 (bf ! (r + 2)) (bf ! (r + 3)))
                   (shift_or4 (bf ! (r + 4)) (bf ! (r + 5)) (bf ! (r + 6)) (bf ! (r + 7)))
                   ?n,
       program_bytes = (if hide then None else Some (take ?len (drop (r + 12) bf))),
       bytes_read = (if hide then [r..<r + 12] else [r..<r + 12 + ?len]),
       next_record = Some (r + 12 + ?len) \<rparr>"
    unfolding s n' shown offs b un by (simp add: app)
qed

lemma DisplayRecord_entry_in_buffer:
  assumes tag: "bf ! r = 0x02" and fit: "r + 6 \<le> length bf"
  shows "DisplayRecord (bf_mem bf junk) hide r =
     \<lparr> decoded = EntryRecord
                   (shift_or4 (bf ! (r + 1)) (bf ! (r + 2)) (bf ! (r + 3)) (bf ! (r + 4)))
                   (ucast (bf ! (r + 5))),
       program_bytes = None, bytes_read = [r..<r + 6], next_record = Some (r + 6) \<rparr>"
proof -
  let ?mem = "bf_mem bf junk"
  have m: "\<And>k. k < 6 \<Longrightarrow> ?mem (r + k) = bf ! (r + k)"
    using fit by (simp add: bf_mem_def)
  have b: "?mem (r + 1) = bf ! (r + 1)" "?mem (r + 2) = bf ! (r + 2)" "?mem (r + 3) = bf ! (r + 3)"
    "?mem (r + 4) = bf ! (r + 4)" "?mem (r + 5) = bf ! (r + 5)"
    by (rule m, simp)+
  have tag': "?mem r = 0x02"
    using tag m [of 0] by simp
  show ?thesis
    unfolding DisplayRecord_entry [of ?mem r hide, OF tag'] b ..
qed

lemma DisplayRecord_end_in_buffer:
  assumes tag: "bf ! r = 0x03" and fit: "r + 5 \<le> length bf"
  shows "DisplayRecord (bf_mem bf junk) hide r =
     \<lparr> decoded = EndRecord
                   (shift_or4 (bf ! (r + 1)) (bf ! (r + 2)) (bf ! (r + 3)) (bf ! (r + 4))),
       program_bytes = None, bytes_read = [r..<r + 5], next_record = None \<rparr>"
proof -
  let ?mem = "bf_mem bf junk"
  have m: "\<And>k. k < 5 \<Longrightarrow> ?mem (r + k) = bf ! (r + k)"
    using fit by (simp add: bf_mem_def)
  have b: "?mem (r + 1) = bf ! (r + 1)" "?mem (r + 2) = bf ! (r + 2)" "?mem (r + 3) = bf ! (r + 3)"
    "?mem (r + 4) = bf ! (r + 4)"
    by (rule m, simp)+
  have tag': "?mem r = 0x03"
    using tag m [of 0] by simp
  show ?thesis
    unfolding DisplayRecord_end [of ?mem r hide, OF tag'] b ..
qed

lemma DisplayRecord_other_in_buffer:
  assumes "bf ! r \<noteq> 0x01" and "bf ! r \<noteq> 0x02" and "bf ! r \<noteq> 0x03" and "r < length bf"
  shows "DisplayRecord (bf_mem bf junk) hide r =
     \<lparr> decoded = NoRecord, program_bytes = None, bytes_read = [r], next_record = None \<rparr>"
  by (rule DisplayRecord_other) (use assms in \<open>simp_all add: bf_mem_def\<close>)

lemma be4_at:
  "r + 5 \<le> length bf \<Longrightarrow>
   unat (shift_or4 (bf ! (r + 1)) (bf ! (r + 2)) (bf ! (r + 3)) (bf ! (r + 4))) =
     spec_be_value (take 4 (drop (r + 1) bf))"
  "r + 8 \<le> length bf \<Longrightarrow>
   unat (shift_or4 (bf ! (r + 4)) (bf ! (r + 5)) (bf ! (r + 6)) (bf ! (r + 7))) =
     spec_be_value (take 4 (drop (r + 4) bf))"
proof -
  have e: "r + 1 + 1 = r + 2" "r + 1 + 2 = r + 3" "r + 1 + 3 = r + 4"
    "r + 4 + 1 = r + 5" "r + 4 + 2 = r + 6" "r + 4 + 3 = r + 7"
    by simp_all
  {
    assume "r + 5 \<le> length bf"
    then have "r + 1 + 4 \<le> length bf" by simp
    from shift_or4_slice [OF this]
    show "unat (shift_or4 (bf ! (r + 1)) (bf ! (r + 2)) (bf ! (r + 3)) (bf ! (r + 4))) =
          spec_be_value (take 4 (drop (r + 1) bf))"
      unfolding e .
  }
  {
    assume "r + 8 \<le> length bf"
    then have "r + 4 + 4 \<le> length bf" by simp
    from shift_or4_slice [OF this]
    show "unat (shift_or4 (bf ! (r + 4)) (bf ! (r + 5)) (bf ! (r + 6)) (bf ! (r + 7))) =
          spec_be_value (take 4 (drop (r + 4) bf))"
      unfolding e .
  }
qed

lemma be2_at:
  "r + 4 \<le> length bf \<Longrightarrow>
   unat (shift_or2 (bf ! (r + 2)) (bf ! (r + 3))) = spec_be_value (take 2 (drop (r + 2) bf))"
proof -
  have e: "r + 2 + 1 = r + 3"
    by simp
  assume "r + 4 \<le> length bf"
  then have "r + 2 + 2 \<le> length bf" by simp
  from shift_or2_slice [OF this] show ?thesis
    unfolding e .
qed

lemma example_records_in_buffer:
  "length example_records \<le> MAX_FILE_SIZE_BYTES - HEADER_SIZE_BYTES"
  "spec_record_in_buffer example_records 0"
  "spec_record_in_buffer example_records 16"
  "spec_record_in_buffer example_records 22"
  by (simp_all add: example_records_def MAX_FILE_SIZE_BYTES_def HEADER_SIZE_BYTES_def
        spec_record_in_buffer_def spec_record_extent_def spec_be_value_def)

text \<open>
  Claim C4, amended. For a record that lies within the bytes loaded into the buffer, the tag
  byte at the cursor determines the step.
  Tag 0x01: segment type (1 byte), flags (2 bytes, big-endian), start address (4 bytes,
  big-endian) and byte count (4 bytes, big-endian) are read and displayed as a Data record,
  and the cursor advances by 12 + byte count. The byte count payload bytes are read and
  displayed when \<open>hide_program_bytes\<close> is cleared, and none of them when it is set.
  Tag 0x02: entry address (4 bytes, big-endian) and segment type (1 byte) are read and
  displayed as an Entry record, and the cursor advances by 6.
  Tag 0x03: the checksum (4 bytes, big-endian) is read and displayed as an End record, and
  the null pointer is returned, which ends the walk.
  The null pointer is returned exactly when the tag is neither 0x01 nor 0x02, and every byte
  read lies within the bytes loaded.
\<close>

theorem DisplayRecord_by_tag_in_buffer:
  assumes cap: "length bf \<le> MAX_FILE_SIZE_BYTES - HEADER_SIZE_BYTES"
    and inb: "spec_record_in_buffer bf r"
  shows
   "(bf ! r = 0x01 \<longrightarrow>
      (\<exists>seg fl addr n.
          decoded (DisplayRecord (bf_mem bf junk) hide r) = DataRecord seg fl addr n
        \<and> unat seg = unat (bf ! (r + 1))
        \<and> unat fl = spec_be_value (take 2 (drop (r + 2) bf))
        \<and> unat addr = spec_be_value (take 4 (drop (r + 4) bf))
        \<and> unat n = spec_be_value (take 4 (drop (r + 8) bf))
        \<and> next_record (DisplayRecord (bf_mem bf junk) hide r) = Some (r + 12 + unat n)
        \<and> (hide \<longrightarrow>
              program_bytes (DisplayRecord (bf_mem bf junk) hide r) = None
            \<and> bytes_read (DisplayRecord (bf_mem bf junk) hide r) = [r..<r + 12])
        \<and> (\<not> hide \<longrightarrow>
              program_bytes (DisplayRecord (bf_mem bf junk) hide r) =
                Some (take (unat n) (drop (r + 12) bf))
            \<and> bytes_read (DisplayRecord (bf_mem bf junk) hide r) = [r..<r + 12 + unat n])))
    \<and> (bf ! r = 0x02 \<longrightarrow>
      (\<exists>addr seg.
          decoded (DisplayRecord (bf_mem bf junk) hide r) = EntryRecord addr seg
        \<and> unat addr = spec_be_value (take 4 (drop (r + 1) bf))
        \<and> unat seg = unat (bf ! (r + 5))
        \<and> program_bytes (DisplayRecord (bf_mem bf junk) hide r) = None
        \<and> bytes_read (DisplayRecord (bf_mem bf junk) hide r) = [r..<r + 6]
        \<and> next_record (DisplayRecord (bf_mem bf junk) hide r) = Some (r + 6)))
    \<and> (bf ! r = 0x03 \<longrightarrow>
      (\<exists>c. decoded (DisplayRecord (bf_mem bf junk) hide r) = EndRecord c
        \<and> unat c = spec_be_value (take 4 (drop (r + 1) bf))
        \<and> program_bytes (DisplayRecord (bf_mem bf junk) hide r) = None
        \<and> bytes_read (DisplayRecord (bf_mem bf junk) hide r) = [r..<r + 5]
        \<and> next_record (DisplayRecord (bf_mem bf junk) hide r) = None
        \<and> DisplayRecords_loop (bf_mem bf junk) hide r =
            Some [DisplayRecord (bf_mem bf junk) hide r]))
    \<and> (next_record (DisplayRecord (bf_mem bf junk) hide r) = None
         \<longleftrightarrow> bf ! r \<noteq> 0x01 \<and> bf ! r \<noteq> 0x02)
    \<and> (\<forall>i\<in>set (bytes_read (DisplayRecord (bf_mem bf junk) hide r)). i < length bf)"
proof -
  let ?S = "DisplayRecord (bf_mem bf junk) hide r"
  let ?len = "spec_be_value (take 4 (drop (r + 8) bf))"
  from inb have lt: "r < length bf" and ext: "r + spec_record_extent bf r \<le> length bf"
    by (simp_all add: spec_record_in_buffer_def)
  consider (data) "bf ! r = 0x01" | (entry) "bf ! r = 0x02" | (endr) "bf ! r = 0x03"
    | (other) "bf ! r \<noteq> 0x01" "bf ! r \<noteq> 0x02" "bf ! r \<noteq> 0x03"
    by blast
  then show ?thesis
  proof cases
    case data
    with ext have fit: "r + (12 + ?len) \<le> length bf"
      by (simp add: spec_record_extent_def)
    note s1 = DisplayRecord_data_in_buffer(1) [OF cap data fit, of junk hide]
    note s2 = DisplayRecord_data_in_buffer(2) [OF cap data fit]
    have in12: "r + 4 \<le> length bf" "r + 8 \<le> length bf"
      using fit by simp_all
    have dec: "decoded ?S = DataRecord (ucast (bf ! (r + 1)))
                   (shift_or2 (bf ! (r + 2)) (bf ! (r + 3)))
                   (shift_or4 (bf ! (r + 4)) (bf ! (r + 5)) (bf ! (r + 6)) (bf ! (r + 7)))
                   (shift_or4 (bf ! (r + 8)) (bf ! (r + 9)) (bf ! (r + 10)) (bf ! (r + 11)))"
      and nxt: "next_record ?S = Some (r + 12 + ?len)"
      and pb: "program_bytes ?S = (if hide then None else Some (take ?len (drop (r + 12) bf)))"
      and br: "bytes_read ?S = (if hide then [r..<r + 12] else [r..<r + 12 + ?len])"
      by (simp_all add: s1)
    have "\<exists>seg fl addr n.
          decoded ?S = DataRecord seg fl addr n
        \<and> unat seg = unat (bf ! (r + 1))
        \<and> unat fl = spec_be_value (take 2 (drop (r + 2) bf))
        \<and> unat addr = spec_be_value (take 4 (drop (r + 4) bf))
        \<and> unat n = ?len
        \<and> next_record ?S = Some (r + 12 + unat n)
        \<and> (hide \<longrightarrow> program_bytes ?S = None \<and> bytes_read ?S = [r..<r + 12])
        \<and> (\<not> hide \<longrightarrow> program_bytes ?S = Some (take (unat n) (drop (r + 12) bf))
            \<and> bytes_read ?S = [r..<r + 12 + unat n])"
    proof (intro exI conjI)
      show "decoded ?S = DataRecord (ucast (bf ! (r + 1)))
                   (shift_or2 (bf ! (r + 2)) (bf ! (r + 3)))
                   (shift_or4 (bf ! (r + 4)) (bf ! (r + 5)) (bf ! (r + 6)) (bf ! (r + 7)))
                   (shift_or4 (bf ! (r + 8)) (bf ! (r + 9)) (bf ! (r + 10)) (bf ! (r + 11)))"
        by (rule dec)
      show "unat (ucast (bf ! (r + 1)) :: u32) = unat (bf ! (r + 1))"
        by (rule unat_ucast_u8)
      show "unat (shift_or2 (bf ! (r + 2)) (bf ! (r + 3))) =
            spec_be_value (take 2 (drop (r + 2) bf))"
        using in12(1) by (rule be2_at)
      show "unat (shift_or4 (bf ! (r + 4)) (bf ! (r + 5)) (bf ! (r + 6)) (bf ! (r + 7))) =
            spec_be_value (take 4 (drop (r + 4) bf))"
        using in12(2) by (rule be4_at(2))
      show "unat (shift_or4 (bf ! (r + 8)) (bf ! (r + 9)) (bf ! (r + 10)) (bf ! (r + 11))) = ?len"
        by (rule s2)
      show "next_record ?S = Some (r + 12 +
              unat (shift_or4 (bf ! (r + 8)) (bf ! (r + 9)) (bf ! (r + 10)) (bf ! (r + 11))))"
        unfolding s2 by (rule nxt)
      show "hide \<longrightarrow> program_bytes ?S = None \<and> bytes_read ?S = [r..<r + 12]"
        unfolding pb br by simp
      show "\<not> hide \<longrightarrow>
              program_bytes ?S = Some (take
                 (unat (shift_or4 (bf ! (r + 8)) (bf ! (r + 9)) (bf ! (r + 10)) (bf ! (r + 11))))
                 (drop (r + 12) bf))
            \<and> bytes_read ?S = [r..<r + 12 +
                 unat (shift_or4 (bf ! (r + 8)) (bf ! (r + 9)) (bf ! (r + 10)) (bf ! (r + 11)))]"
        unfolding s2 pb br by simp
    qed
    moreover have "next_record ?S \<noteq> None"
      unfolding nxt by simp
    moreover have "\<forall>i\<in>set (bytes_read ?S). i < length bf"
      unfolding br using fit by auto
    ultimately show ?thesis
      using data by simp
  next
    case entry
    with ext have fit: "r + 6 \<le> length bf"
      by (simp add: spec_record_extent_def)
    note s = DisplayRecord_entry_in_buffer [OF entry fit, of junk hide]
    have "r + 5 \<le> length bf"
      using fit by simp
    then have be: "unat (shift_or4 (bf ! (r + 1)) (bf ! (r + 2)) (bf ! (r + 3)) (bf ! (r + 4))) =
          spec_be_value (take 4 (drop (r + 1) bf))"
      by (rule be4_at(1))
    have "\<exists>addr seg.
          decoded ?S = EntryRecord addr seg
        \<and> unat addr = spec_be_value (take 4 (drop (r + 1) bf))
        \<and> unat seg = unat (bf ! (r + 5))
        \<and> program_bytes ?S = None
        \<and> bytes_read ?S = [r..<r + 6]
        \<and> next_record ?S = Some (r + 6)"
      unfolding s using be by (simp add: unat_ucast_u8)
    moreover have "next_record ?S \<noteq> None"
      unfolding s by simp
    moreover have "\<forall>i\<in>set (bytes_read ?S). i < length bf"
      unfolding s using fit by auto
    ultimately show ?thesis
      using entry by simp
  next
    case endr
    with ext have fit: "r + 5 \<le> length bf"
      by (simp add: spec_record_extent_def)
    note s = DisplayRecord_end_in_buffer [OF endr fit, of junk hide]
    have be: "unat (shift_or4 (bf ! (r + 1)) (bf ! (r + 2)) (bf ! (r + 3)) (bf ! (r + 4))) =
          spec_be_value (take 4 (drop (r + 1) bf))"
      using fit by (rule be4_at(1))
    have stop: "next_record ?S = None"
      unfolding s by simp
    then have loop: "DisplayRecords_loop (bf_mem bf junk) hide r = Some [?S]"
      by (rule DisplayRecords_loop_stop)
    have "\<exists>c. decoded ?S = EndRecord c
        \<and> unat c = spec_be_value (take 4 (drop (r + 1) bf))
        \<and> program_bytes ?S = None
        \<and> bytes_read ?S = [r..<r + 5]
        \<and> next_record ?S = None"
      unfolding s using be by simp
    moreover have "\<forall>i\<in>set (bytes_read ?S). i < length bf"
      unfolding s using fit by auto
    ultimately show ?thesis
      using endr stop loop by simp
  next
    case other
    note s = DisplayRecord_other_in_buffer [OF other lt, of junk hide]
    show ?thesis
      unfolding s using other lt by simp
  qed
qed

theorem DisplayRecord_by_tag_in_buffer_witness:
  "length example_records \<le> MAX_FILE_SIZE_BYTES - HEADER_SIZE_BYTES
   \<and> spec_record_in_buffer example_records 0
   \<and> example_records ! 0 = 0x01
   \<and> DisplayRecord (bf_mem example_records zero_junk) False 0 =
        \<lparr> decoded = DataRecord 0 0 0 4, program_bytes = Some [0xDE, 0xAD, 0xBE, 0xEF],
          bytes_read = [0..<16], next_record = Some 16 \<rparr>
   \<and> DisplayRecord (bf_mem example_records zero_junk) True 0 =
        \<lparr> decoded = DataRecord 0 0 0 4, program_bytes = None,
          bytes_read = [0..<12], next_record = Some 16 \<rparr>
   \<and> spec_record_in_buffer example_records 16
   \<and> example_records ! 16 = 0x02
   \<and> DisplayRecord (bf_mem example_records zero_junk) False 16 =
        \<lparr> decoded = EntryRecord 0x1000 5, program_bytes = None,
          bytes_read = [16..<22], next_record = Some 22 \<rparr>
   \<and> spec_record_in_buffer example_records 22
   \<and> example_records ! 22 = 0x03
   \<and> DisplayRecord (bf_mem example_records zero_junk) False 22 =
        \<lparr> decoded = EndRecord 0, program_bytes = None,
          bytes_read = [22..<27], next_record = None \<rparr>"
proof -
  have tags: "example_records ! 0 = 0x01" "example_records ! 16 = 0x02"
    "example_records ! 22 = 0x03"
    by (simp_all add: example_records_def)
  have run: "DisplayRecord (bf_mem example_records zero_junk) False 0 =
        \<lparr> decoded = DataRecord 0 0 0 4, program_bytes = Some [0xDE, 0xAD, 0xBE, 0xEF],
          bytes_read = [0..<16], next_record = Some 16 \<rparr>
   \<and> DisplayRecord (bf_mem example_records zero_junk) True 0 =
        \<lparr> decoded = DataRecord 0 0 0 4, program_bytes = None,
          bytes_read = [0..<12], next_record = Some 16 \<rparr>
   \<and> DisplayRecord (bf_mem example_records zero_junk) False 16 =
        \<lparr> decoded = EntryRecord 0x1000 5, program_bytes = None,
          bytes_read = [16..<22], next_record = Some 22 \<rparr>
   \<and> DisplayRecord (bf_mem example_records zero_junk) False 22 =
        \<lparr> decoded = EndRecord 0, program_bytes = None,
          bytes_read = [22..<27], next_record = None \<rparr>"
    by code_simp
  have all: "length example_records \<le> MAX_FILE_SIZE_BYTES - HEADER_SIZE_BYTES
   \<and> spec_record_in_buffer example_records 0
   \<and> example_records ! 0 = 0x01
   \<and> DisplayRecord (bf_mem example_records zero_junk) False 0 =
        \<lparr> decoded = DataRecord 0 0 0 4, program_bytes = Some [0xDE, 0xAD, 0xBE, 0xEF],
          bytes_read = [0..<16], next_record = Some 16 \<rparr>
   \<and> DisplayRecord (bf_mem example_records zero_junk) True 0 =
        \<lparr> decoded = DataRecord 0 0 0 4, program_bytes = None,
          bytes_read = [0..<12], next_record = Some 16 \<rparr>
   \<and> spec_record_in_buffer example_records 16
   \<and> example_records ! 16 = 0x02
   \<and> DisplayRecord (bf_mem example_records zero_junk) False 16 =
        \<lparr> decoded = EntryRecord 0x1000 5, program_bytes = None,
          bytes_read = [16..<22], next_record = Some 22 \<rparr>
   \<and> spec_record_in_buffer example_records 22
   \<and> example_records ! 22 = 0x03
   \<and> DisplayRecord (bf_mem example_records zero_junk) False 22 =
        \<lparr> decoded = EndRecord 0, program_bytes = None,
          bytes_read = [22..<27], next_record = None \<rparr>"
    using example_records_in_buffer tags run by blast
  show ?thesis
    using DisplayRecord_by_tag_in_buffer
        [OF example_records_in_buffer(1) example_records_in_buffer(2), of zero_junk False]
      DisplayRecord_by_tag_in_buffer
        [OF example_records_in_buffer(1) example_records_in_buffer(2), of zero_junk True]
      DisplayRecord_by_tag_in_buffer
        [OF example_records_in_buffer(1) example_records_in_buffer(3), of zero_junk False]
      DisplayRecord_by_tag_in_buffer
        [OF example_records_in_buffer(1) example_records_in_buffer(4), of zero_junk False]
    by - (rule all)
qed

text \<open>
  Claim C10 says that the decoded record, payload included, does not depend on
  \<open>hide_program_bytes\<close>. For the Data record of the example the payload is displayed with
  the flag cleared and not with the flag set, and the flag decides whether its four bytes
  are read at all.
\<close>

theorem hide_program_bytes_counterexample:
  "program_bytes (DisplayRecord (bf_mem example_records zero_junk) True 0) = None
   \<and> program_bytes (DisplayRecord (bf_mem example_records zero_junk) False 0) =
        Some [0xDE, 0xAD, 0xBE, 0xEF]
   \<and> bytes_read (DisplayRecord (bf_mem example_records zero_junk) True 0) = [0..<12]
   \<and> bytes_read (DisplayRecord (bf_mem example_records zero_junk) False 0) = [0..<16]"
  by code_simp

text \<open>
  Claim C10, amended. For a record that lies within the bytes loaded into the buffer, the
  field values displayed other than the payload, and the next-record pointer returned, are
  the same whether \<open>hide_program_bytes\<close> is set or cleared. The flag decides whether the
  payload of a Data record is read and displayed: set, the step reads the 12 bytes before
  the payload and displays no payload; cleared, it reads and displays the whole payload.
  For the other records the flag changes nothing.
\<close>

theorem hide_program_bytes_effect:
  assumes cap: "length bf \<le> MAX_FILE_SIZE_BYTES - HEADER_SIZE_BYTES"
    and inb: "spec_record_in_buffer bf r"
  shows
   "decoded (DisplayRecord (bf_mem bf junk) True r) = decoded (DisplayRecord (bf_mem bf junk) False r)
    \<and> next_record (DisplayRecord (bf_mem bf junk) True r) =
        next_record (DisplayRecord (bf_mem bf junk) False r)
    \<and> program_bytes (DisplayRecord (bf_mem bf junk) True r) = None
    \<and> (bf ! r = 0x01 \<longrightarrow>
          program_bytes (DisplayRecord (bf_mem bf junk) False r) =
            Some (take (spec_be_value (take 4 (drop (r + 8) bf))) (drop (r + 12) bf))
        \<and> bytes_read (DisplayRecord (bf_mem bf junk) True r) = [r..<r + 12]
        \<and> bytes_read (DisplayRecord (bf_mem bf junk) False r) =
            [r..<r + 12 + spec_be_value (take 4 (drop (r + 8) bf))])
    \<and> (bf ! r \<noteq> 0x01 \<longrightarrow>
          program_bytes (DisplayRecord (bf_mem bf junk) False r) = None
        \<and> bytes_read (DisplayRecord (bf_mem bf junk) False r) =
            bytes_read (DisplayRecord (bf_mem bf junk) True r))
    \<and> (\<forall>i\<in>set (bytes_read (DisplayRecord (bf_mem bf junk) True r))
              \<union> set (bytes_read (DisplayRecord (bf_mem bf junk) False r)). i < length bf)"
proof -
  let ?len = "spec_be_value (take 4 (drop (r + 8) bf))"
  from inb have lt: "r < length bf" and ext: "r + spec_record_extent bf r \<le> length bf"
    by (simp_all add: spec_record_in_buffer_def)
  consider (data) "bf ! r = 0x01" | (entry) "bf ! r = 0x02" | (endr) "bf ! r = 0x03"
    | (other) "bf ! r \<noteq> 0x01" "bf ! r \<noteq> 0x02" "bf ! r \<noteq> 0x03"
    by blast
  then show ?thesis
  proof cases
    case data
    with ext have fit: "r + (12 + ?len) \<le> length bf"
      by (simp add: spec_record_extent_def)
    note t = DisplayRecord_data_in_buffer(1) [OF cap data fit, of junk True]
    note f = DisplayRecord_data_in_buffer(1) [OF cap data fit, of junk False]
    show ?thesis
      unfolding t f using data fit by auto
  next
    case entry
    with ext have fit: "r + 6 \<le> length bf"
      by (simp add: spec_record_extent_def)
    note t = DisplayRecord_entry_in_buffer [OF entry fit, of junk True]
    note f = DisplayRecord_entry_in_buffer [OF entry fit, of junk False]
    show ?thesis
      unfolding t f using entry fit by auto
  next
    case endr
    with ext have fit: "r + 5 \<le> length bf"
      by (simp add: spec_record_extent_def)
    note t = DisplayRecord_end_in_buffer [OF endr fit, of junk True]
    note f = DisplayRecord_end_in_buffer [OF endr fit, of junk False]
    show ?thesis
      unfolding t f using endr fit by auto
  next
    case other
    note t = DisplayRecord_other_in_buffer [OF other lt, of junk True]
    note f = DisplayRecord_other_in_buffer [OF other lt, of junk False]
    show ?thesis
      unfolding t f using other lt by auto
  qed
qed

theorem hide_program_bytes_effect_witness:
  "length example_records \<le> MAX_FILE_SIZE_BYTES - HEADER_SIZE_BYTES
   \<and> spec_record_in_buffer example_records 0
   \<and> example_records ! 0 = 0x01
   \<and> decoded (DisplayRecord (bf_mem example_records zero_junk) True 0) = DataRecord 0 0 0 4
   \<and> decoded (DisplayRecord (bf_mem example_records zero_junk) False 0) = DataRecord 0 0 0 4
   \<and> next_record (DisplayRecord (bf_mem example_records zero_junk) True 0) = Some 16
   \<and> next_record (DisplayRecord (bf_mem example_records zero_junk) False 0) = Some 16
   \<and> program_bytes (DisplayRecord (bf_mem example_records zero_junk) True 0) = None
   \<and> program_bytes (DisplayRecord (bf_mem example_records zero_junk) False 0) =
        Some [0xDE, 0xAD, 0xBE, 0xEF]"
proof -
  have tag: "example_records ! 0 = 0x01"
    by (simp add: example_records_def)
  have run: "decoded (DisplayRecord (bf_mem example_records zero_junk) True 0) = DataRecord 0 0 0 4
   \<and> decoded (DisplayRecord (bf_mem example_records zero_junk) False 0) = DataRecord 0 0 0 4
   \<and> next_record (DisplayRecord (bf_mem example_records zero_junk) True 0) = Some 16
   \<and> next_record (DisplayRecord (bf_mem example_records zero_junk) False 0) = Some 16
   \<and> program_bytes (DisplayRecord (bf_mem example_records zero_junk) True 0) = None
   \<and> program_bytes (DisplayRecord (bf_mem example_records zero_junk) False 0) =
        Some [0xDE, 0xAD, 0xBE, 0xEF]"
    by code_simp
  have all: "length example_records \<le> MAX_FILE_SIZE_BYTES - HEADER_SIZE_BYTES
   \<and> spec_record_in_buffer example_records 0
   \<and> example_records ! 0 = 0x01
   \<and> decoded (DisplayRecord (bf_mem example_records zero_junk) True 0) = DataRecord 0 0 0 4
   \<and> decoded (DisplayRecord (bf_mem example_records zero_junk) False 0) = DataRecord 0 0 0 4
   \<and> next_record (DisplayRecord (bf_mem example_records zero_junk) True 0) = Some 16
   \<and> next_record (DisplayRecord (bf_mem example_records zero_junk) False 0) = Some 16
   \<and> program_bytes (DisplayRecord (bf_mem example_records zero_junk) True 0) = None
   \<and> program_bytes (DisplayRecord (bf_mem example_records zero_junk) False 0) =
        Some [0xDE, 0xAD, 0xBE, 0xEF]"
    using example_records_in_buffer(1,2) tag run by blast
  show ?thesis
    using hide_program_bytes_effect
        [OF example_records_in_buffer(1) example_records_in_buffer(2), of zero_junk]
    by - (rule all)
qed

section \<open>Truncated record streams\<close>

text \<open>
  Claim C1 says that a record reaching past the end of the buffer is detected before any
  byte past the end is read, and reported. \<open>DisplayRecords\<close> only tests that at least one
  byte was read (\<^verbatim>\<open>if (rb)     // should check for minimum size\<close>). For a file that
  ends after the tag byte of its End record, the four checksum bytes are read at the offsets
  1 to 4 of a buffer holding one byte, an End record is displayed with whatever lies there,
  and 0 is returned. For a file that ends after the first of four payload bytes of a Data
  record, the offsets 13 to 15 are read as payload and the walk goes on at offset 16, all in
  a buffer holding 13 bytes.
\<close>

theorem truncated_records_displayed:
  "DisplayRecords hide junk ([0, 0, 0, 1, 0, 0, 0, 0, 0, 0, 0, 4, 1, 0] @ [0x03]) =
     Some (Inr [\<lparr> decoded = EndRecord (shift_or4 (junk 1) (junk 2) (junk 3) (junk 4)),
                  program_bytes = None, bytes_read = [0..<5], next_record = None \<rparr>])
   \<and> DisplayRecords False zero_junk
        ([0, 0, 0, 1, 0, 0, 0, 0, 0, 0, 0, 4, 1, 0]
         @ [0x01, 0, 0, 0, 0, 0, 0, 0, 0, 0, 0, 4, 0xDE]) =
     Some (Inr [\<lparr> decoded = DataRecord 0 0 0 4, program_bytes = Some [0xDE, 0, 0, 0],
                  bytes_read = [0..<16], next_record = Some 16 \<rparr>,
                \<lparr> decoded = NoRecord, program_bytes = None, bytes_read = [16],
                  next_record = None \<rparr>])"
proof
  have m: "bf_mem [0x03] junk 0 = 0x03" by (simp add: bf_mem_def)
  have r: "bf_mem [0x03] junk (0 + 1) = junk 1" "bf_mem [0x03] junk (0 + 2) = junk 2"
    "bf_mem [0x03] junk (0 + 3) = junk 3" "bf_mem [0x03] junk (0 + 4) = junk 4"
    by (simp_all add: bf_mem_def numeral_2_eq_2)
  have s: "DisplayRecord (bf_mem [0x03] junk) hide 0 =
        \<lparr> decoded = EndRecord (shift_or4 (junk 1) (junk 2) (junk 3) (junk 4)),
          program_bytes = None, bytes_read = [0..<5], next_record = None \<rparr>"
    unfolding DisplayRecord_end [of "bf_mem [0x03] junk" 0 hide, OF m] r by simp
  then have "next_record (DisplayRecord (bf_mem [0x03] junk) hide 0) = None" by simp
  then have "DisplayRecords_loop (bf_mem [0x03] junk) hide 0 =
             Some [DisplayRecord (bf_mem [0x03] junk) hide 0]"
    by (rule DisplayRecords_loop_stop)
  then show "DisplayRecords hide junk ([0, 0, 0, 1, 0, 0, 0, 0, 0, 0, 0, 4, 1, 0] @ [0x03]) =
     Some (Inr [\<lparr> decoded = EndRecord (shift_or4 (junk 1) (junk 2) (junk 3) (junk 4)),
                  program_bytes = None, bytes_read = [0..<5], next_record = None \<rparr>])"
    by (simp add: DisplayRecords_small HEADER_SIZE_BYTES_def MAX_FILE_SIZE_BYTES_def s)
next
  have "DisplayRecords_loop (bf_mem [0x01, 0, 0, 0, 0, 0, 0, 0, 0, 0, 0, 4, 0xDE] zero_junk) False 0 =
     Some [\<lparr> decoded = DataRecord 0 0 0 4, program_bytes = Some [0xDE, 0, 0, 0],
                  bytes_read = [0..<16], next_record = Some 16 \<rparr>,
                \<lparr> decoded = NoRecord, program_bytes = None, bytes_read = [16],
                  next_record = None \<rparr>]"
    by code_simp
  then show "DisplayRecords False zero_junk
        ([0, 0, 0, 1, 0, 0, 0, 0, 0, 0, 0, 4, 1, 0]
         @ [0x01, 0, 0, 0, 0, 0, 0, 0, 0, 0, 0, 4, 0xDE]) =
     Some (Inr [\<lparr> decoded = DataRecord 0 0 0 4, program_bytes = Some [0xDE, 0, 0, 0],
                  bytes_read = [0..<16], next_record = Some 16 \<rparr>,
                \<lparr> decoded = NoRecord, program_bytes = None, bytes_read = [16],
                  next_record = None \<rparr>])"
    by (simp add: DisplayRecords_small HEADER_SIZE_BYTES_def MAX_FILE_SIZE_BYTES_def)
qed

section \<open>Well-formed record streams\<close>

text \<open>
  Displaying a record laid out as the format says shows the fields it was built from,
  returns the offset just behind it, and reads no byte outside it, provided its length fits
  32 bits.
\<close>

lemma DisplayRecord_data_reads:
  assumes tag: "mem r = 0x01"
    and fits: "unat (shift_or4 (mem (r + 8)) (mem (r + 9)) (mem (r + 10)) (mem (r + 11))) < 2 ^ 32 - 12"
  shows "set (bytes_read (DisplayRecord mem hide r)) \<subseteq>
         {r..<r + 12 + unat (shift_or4 (mem (r + 8)) (mem (r + 9)) (mem (r + 10)) (mem (r + 11)))}"
proof -
  let ?n = "shift_or4 (mem (r + 8)) (mem (r + 9)) (mem (r + 10)) (mem (r + 11))"
  have "map (\<lambda>i. id (r + unat i)) (program_bytes_loop 12 (12 + ?n)) = map id [r + 12..<r + 12 + unat ?n]"
    using fits by (rule program_bytes_shown)
  then have offs: "map (\<lambda>i. r + unat i) (program_bytes_loop 12 (12 + ?n)) = [r + 12..<r + 12 + unat ?n]"
    by simp
  show ?thesis
    unfolding DisplayRecord_data [of mem r hide, OF tag] by (auto simp: offs)
qed

lemma bf_mem_in_record:
  "k < length xs \<Longrightarrow> bf_mem (pre @ xs @ rest) junk (length pre + k) = xs ! k"
  by (simp add: bf_mem_def nth_append)

lemma bf_mem_record_tag:
  "xs \<noteq> [] \<Longrightarrow> bf_mem (pre @ xs @ rest) junk (length pre) = xs ! 0"
  using bf_mem_in_record [of 0 xs pre rest junk] by simp

lemma spec_data_bytes:
  "spec_record_bytes (SpecData seg fl addr payload) =
     [0x01, seg, ucast (drop_bit 8 fl), ucast fl,
      ucast (drop_bit 24 addr), ucast (drop_bit 16 addr), ucast (drop_bit 8 addr), ucast addr,
      ucast (drop_bit 24 (word_of_nat (length payload) :: u32)),
      ucast (drop_bit 16 (word_of_nat (length payload) :: u32)),
      ucast (drop_bit 8 (word_of_nat (length payload) :: u32)),
      ucast (word_of_nat (length payload) :: u32)] @ payload"
  by (simp add: spec_be16_def spec_be32_def)

lemma spec_entry_bytes:
  "spec_record_bytes (SpecEntry addr seg) =
     [0x02, ucast (drop_bit 24 addr), ucast (drop_bit 16 addr), ucast (drop_bit 8 addr), ucast addr, seg]"
  by (simp add: spec_be32_def)

declare spec_record_bytes.simps [simp del]

lemma spec_end_bytes_list:
  "spec_end_bytes c =
     [0x03, ucast (drop_bit 24 c), ucast (drop_bit 16 c), ucast (drop_bit 8 c), ucast c]"
  by (simp add: spec_end_bytes_def spec_be32_def)

lemma DisplayRecord_spec_data:
  assumes fits: "length payload < 2 ^ 32 - 12"
  shows "decoded (DisplayRecord (bf_mem (pre @ spec_record_bytes (SpecData seg fl addr payload) @ rest) junk)
                    hide (length pre)) =
           DataRecord (ucast seg) (ucast fl) addr (word_of_nat (length payload))"
    and "next_record (DisplayRecord (bf_mem (pre @ spec_record_bytes (SpecData seg fl addr payload) @ rest) junk)
                    hide (length pre)) =
           Some (length pre + length (spec_record_bytes (SpecData seg fl addr payload)))"
    and "set (bytes_read (DisplayRecord (bf_mem (pre @ spec_record_bytes (SpecData seg fl addr payload) @ rest) junk)
                    hide (length pre))) \<subseteq>
           {length pre..<length pre + length (spec_record_bytes (SpecData seg fl addr payload))}"
proof -
  let ?xs = "spec_record_bytes (SpecData seg fl addr payload)"
  let ?mem = "bf_mem (pre @ ?xs @ rest) junk"
  let ?r = "length pre"
  have len: "length ?xs = 12 + length payload"
    by (simp add: spec_data_bytes)
  have m: "\<And>k. k < 12 \<Longrightarrow> ?mem (?r + k) = ?xs ! k"
    by (rule bf_mem_in_record) (simp add: len)
  have tag: "?mem ?r = 0x01"
    using m [of 0] by (simp add: spec_data_bytes)
  have b: "?mem (?r + 1) = seg"
    "?mem (?r + 2) = ucast (drop_bit 8 fl)" "?mem (?r + 3) = ucast fl"
    "?mem (?r + 4) = ucast (drop_bit 24 addr)" "?mem (?r + 5) = ucast (drop_bit 16 addr)"
    "?mem (?r + 6) = ucast (drop_bit 8 addr)" "?mem (?r + 7) = ucast addr"
    "?mem (?r + 8) = ucast (drop_bit 24 (word_of_nat (length payload) :: u32))"
    "?mem (?r + 9) = ucast (drop_bit 16 (word_of_nat (length payload) :: u32))"
    "?mem (?r + 10) = ucast (drop_bit 8 (word_of_nat (length payload) :: u32))"
    "?mem (?r + 11) = ucast (word_of_nat (length payload) :: u32)"
    using m [of 1] m [of 2] m [of 3] m [of 4] m [of 5] m [of 6] m [of 7] m [of 8] m [of 9]
      m [of 10] m [of 11]
    by (simp_all add: spec_data_bytes)
  have n: "shift_or4 (?mem (?r + 8)) (?mem (?r + 9)) (?mem (?r + 10)) (?mem (?r + 11)) =
           word_of_nat (length payload)"
    unfolding b by (rule shift_or4_spec_be32)
  have un: "unat (word_of_nat (length payload) :: u32) = length payload"
    using fits by (simp add: unat_of_nat)
  note s = DisplayRecord_data [of ?mem ?r hide, OF tag]
  show "decoded (DisplayRecord ?mem hide ?r) =
          DataRecord (ucast seg) (ucast fl) addr (word_of_nat (length payload))"
    unfolding s b by (simp add: shift_or4_spec_be32 shift_or2_spec_be16)
  show "next_record (DisplayRecord ?mem hide ?r) = Some (?r + length ?xs)"
    unfolding s n by (simp add: un len)
  have "set (bytes_read (DisplayRecord ?mem hide ?r)) \<subseteq>
        {?r..<?r + 12 + unat (shift_or4 (?mem (?r + 8)) (?mem (?r + 9)) (?mem (?r + 10)) (?mem (?r + 11)))}"
    using tag by (rule DisplayRecord_data_reads) (use fits in \<open>simp add: n un\<close>)
  then show "set (bytes_read (DisplayRecord ?mem hide ?r)) \<subseteq> {?r..<?r + length ?xs}"
    by (simp add: n un len add.assoc)
qed

lemma DisplayRecord_spec_entry:
  shows "decoded (DisplayRecord (bf_mem (pre @ spec_record_bytes (SpecEntry addr seg) @ rest) junk)
                    hide (length pre)) = EntryRecord addr (ucast seg)"
    and "next_record (DisplayRecord (bf_mem (pre @ spec_record_bytes (SpecEntry addr seg) @ rest) junk)
                    hide (length pre)) =
           Some (length pre + length (spec_record_bytes (SpecEntry addr seg)))"
    and "set (bytes_read (DisplayRecord (bf_mem (pre @ spec_record_bytes (SpecEntry addr seg) @ rest) junk)
                    hide (length pre))) \<subseteq>
           {length pre..<length pre + length (spec_record_bytes (SpecEntry addr seg))}"
proof -
  let ?xs = "spec_record_bytes (SpecEntry addr seg)"
  let ?mem = "bf_mem (pre @ ?xs @ rest) junk"
  let ?r = "length pre"
  have len: "length ?xs = 6"
    by (simp add: spec_entry_bytes)
  have m: "\<And>k. k < 6 \<Longrightarrow> ?mem (?r + k) = ?xs ! k"
    by (rule bf_mem_in_record) (simp add: len)
  have tag: "?mem ?r = 0x02"
    using m [of 0] by (simp add: spec_entry_bytes)
  have b: "?mem (?r + 1) = ucast (drop_bit 24 addr)" "?mem (?r + 2) = ucast (drop_bit 16 addr)"
    "?mem (?r + 3) = ucast (drop_bit 8 addr)" "?mem (?r + 4) = ucast addr"
    "?mem (?r + 5) = seg"
    using m [of 1] m [of 2] m [of 3] m [of 4] m [of 5]
    by (simp_all add: spec_entry_bytes)
  note s = DisplayRecord_entry [of ?mem ?r hide, OF tag]
  show "decoded (DisplayRecord ?mem hide ?r) = EntryRecord addr (ucast seg)"
    unfolding s b by (simp add: shift_or4_spec_be32)
  show "next_record (DisplayRecord ?mem hide ?r) = Some (?r + length ?xs)"
    unfolding s by (simp add: len)
  show "set (bytes_read (DisplayRecord ?mem hide ?r)) \<subseteq> {?r..<?r + length ?xs}"
    unfolding s by (simp add: len)
qed

lemma DisplayRecord_spec_end:
  shows "DisplayRecord (bf_mem (pre @ spec_end_bytes c) junk) hide (length pre) =
           \<lparr> decoded = EndRecord c, program_bytes = None,
             bytes_read = [length pre..<length pre + 5], next_record = None \<rparr>"
proof -
  let ?xs = "spec_end_bytes c"
  let ?mem = "bf_mem (pre @ ?xs) junk"
  let ?r = "length pre"
  have len: "length ?xs = 5"
    by (simp add: spec_end_bytes_list)
  have m: "\<And>k. k < 5 \<Longrightarrow> ?mem (?r + k) = ?xs ! k"
    using bf_mem_in_record [of _ ?xs pre "[]" junk] by (simp add: len)
  have tag: "?mem ?r = 0x03"
    using m [of 0] by (simp add: spec_end_bytes_list)
  have b: "?mem (?r + 1) = ucast (drop_bit 24 c)" "?mem (?r + 2) = ucast (drop_bit 16 c)"
    "?mem (?r + 3) = ucast (drop_bit 8 c)" "?mem (?r + 4) = ucast c"
    using m [of 1] m [of 2] m [of 3] m [of 4]
    by (simp_all add: spec_end_bytes_list)
  show ?thesis
    unfolding DisplayRecord_end [of ?mem ?r hide, OF tag] b by (simp add: shift_or4_spec_be32)
qed

lemma spec_record_bytes_length: "0 < length (spec_record_bytes r)"
  by (cases r) (simp_all add: spec_data_bytes spec_entry_bytes)

lemma DisplayRecord_spec_record:
  assumes "length (spec_record_bytes r) < 2 ^ 32"
  shows "decoded (DisplayRecord (bf_mem (pre @ spec_record_bytes r @ rest) junk) hide (length pre)) =
           spec_fields r"
    and "next_record (DisplayRecord (bf_mem (pre @ spec_record_bytes r @ rest) junk) hide (length pre)) =
           Some (length pre + length (spec_record_bytes r))"
    and "set (bytes_read (DisplayRecord (bf_mem (pre @ spec_record_bytes r @ rest) junk) hide (length pre)))
           \<subseteq> {length pre..<length pre + length (spec_record_bytes r)}"
proof -
  have "decoded (DisplayRecord (bf_mem (pre @ spec_record_bytes r @ rest) junk) hide (length pre)) =
           spec_fields r
      \<and> next_record (DisplayRecord (bf_mem (pre @ spec_record_bytes r @ rest) junk) hide (length pre)) =
           Some (length pre + length (spec_record_bytes r))
      \<and> set (bytes_read (DisplayRecord (bf_mem (pre @ spec_record_bytes r @ rest) junk) hide (length pre)))
           \<subseteq> {length pre..<length pre + length (spec_record_bytes r)}"
  proof (cases r)
    case (SpecData seg fl addr payload)
    with assms have "length payload < 2 ^ 32 - 12"
      by (simp add: spec_data_bytes)
    from DisplayRecord_spec_data [OF this] show ?thesis
      unfolding SpecData by simp
  next
    case (SpecEntry addr seg)
    from DisplayRecord_spec_entry show ?thesis
      unfolding SpecEntry by simp
  qed
  then show "decoded (DisplayRecord (bf_mem (pre @ spec_record_bytes r @ rest) junk) hide (length pre)) =
           spec_fields r"
    and "next_record (DisplayRecord (bf_mem (pre @ spec_record_bytes r @ rest) junk) hide (length pre)) =
           Some (length pre + length (spec_record_bytes r))"
    and "set (bytes_read (DisplayRecord (bf_mem (pre @ spec_record_bytes r @ rest) junk) hide (length pre)))
           \<subseteq> {length pre..<length pre + length (spec_record_bytes r)}"
    by simp_all
qed

lemma DisplayRecords_loop_stream:
  assumes "length (spec_stream rs c) < 2 ^ 32"
  shows "\<exists>steps. DisplayRecords_loop (bf_mem (pre @ spec_stream rs c) junk) hide (length pre) = Some steps
           \<and> map decoded steps = map spec_fields rs @ [EndRecord c]
           \<and> (\<forall>s\<in>set steps. \<forall>i\<in>set (bytes_read s). i < length (pre @ spec_stream rs c))"
  using assms
proof (induction rs arbitrary: pre)
  case Nil
  let ?mem = "bf_mem (pre @ spec_end_bytes c) junk"
  note s = DisplayRecord_spec_end [of pre c junk hide]
  have "next_record (DisplayRecord ?mem hide (length pre)) = None"
    by (simp add: s)
  then have "DisplayRecords_loop ?mem hide (length pre) = Some [DisplayRecord ?mem hide (length pre)]"
    by (rule DisplayRecords_loop_stop)
  moreover have "decoded (DisplayRecord ?mem hide (length pre)) = EndRecord c"
    and "bytes_read (DisplayRecord ?mem hide (length pre)) = [length pre..<length pre + 5]"
    by (simp_all add: s)
  moreover have "length (spec_end_bytes c) = 5"
    by (simp add: spec_end_bytes_list)
  ultimately show ?case
    by (simp add: spec_stream_def)
next
  case (Cons r rs)
  let ?xs = "spec_record_bytes r"
  let ?rest = "spec_stream rs c"
  let ?mem = "bf_mem (pre @ ?xs @ ?rest) junk"
  let ?s = "DisplayRecord ?mem hide (length pre)"
  have split: "spec_stream (r # rs) c = ?xs @ ?rest"
    by (simp add: spec_stream_def)
  from Cons.prems have l1: "length ?xs < 2 ^ 32" and l2: "length ?rest < 2 ^ 32"
    by (simp_all add: split)
  note d = DisplayRecord_spec_record [OF l1, of pre ?rest junk hide]
  from Cons.IH [OF l2, of "pre @ ?xs"]
  obtain steps where
    w: "DisplayRecords_loop ?mem hide (length pre + length ?xs) = Some steps"
    and f: "map decoded steps = map spec_fields rs @ [EndRecord c]"
    and b: "\<forall>s\<in>set steps. \<forall>i\<in>set (bytes_read s). i < length (pre @ ?xs @ ?rest)"
    by auto
  have "DisplayRecords_loop ?mem hide (length pre) = Some (?s # steps)"
    using DisplayRecords_loop_continue [OF d(2)] w by simp
  moreover have "map decoded (?s # steps) = map spec_fields (r # rs) @ [EndRecord c]"
    using d(1) f by simp
  moreover have "\<forall>s\<in>set (?s # steps). \<forall>i\<in>set (bytes_read s). i < length (pre @ ?xs @ ?rest)"
    using d(3) b by auto
  ultimately show ?case
    unfolding split by blast
qed

lemma spec_stream_length: "5 \<le> length (spec_stream rs c)"
  by (simp add: spec_stream_def spec_end_bytes_list)

text \<open>
  Claim C6 covers every file of at least 18 bytes that holds a well-formed record stream.
  The file below holds one Data record of 999,986 payload bytes and the End record, 1,000,017
  bytes in all. \<open>main\<close> rejects it at the size check and displays no record. Run on it all
  the same, \<open>DisplayRecords\<close> loads the first 999,986 bytes of the stream, is sent by the
  Data record to offset 999,998, reads the tag there, past the bytes loaded, and stops
  without having reached the End record.
\<close>

theorem oversized_well_formed_counterexample:
  "18 \<le> length (replicate 14 0 @ spec_stream [SpecData 0 0 0 (replicate 999986 0)] 0)
   \<and> main True zero_junk (replicate 14 0 @ spec_stream [SpecData 0 0 0 (replicate 999986 0)] 0) =
        Some [Failed FileSizeTooLarge]
   \<and> length (take (MAX_FILE_SIZE_BYTES - HEADER_SIZE_BYTES)
         (drop HEADER_SIZE_BYTES
            (replicate 14 0 @ spec_stream [SpecData 0 0 0 (replicate 999986 0)] 0))) = 999986
   \<and> DisplayRecords True zero_junk
        (replicate 14 0 @ spec_stream [SpecData 0 0 0 (replicate 999986 0)] 0) =
        Some (Inr [\<lparr> decoded = DataRecord 0 0 0 999986, program_bytes = None,
                     bytes_read = [0..<12], next_record = Some 999998 \<rparr>,
                   \<lparr> decoded = NoRecord, program_bytes = None,
                     bytes_read = [999998], next_record = None \<rparr>])"
proof -
  let ?big = "replicate 14 (0 :: u8) @ spec_stream [SpecData 0 0 0 (replicate 999986 0)] 0"
  let ?bf = "0x01 # 0 # 0 # 0 # 0 # 0 # 0 # 0 # 0x00 # 0x0F # 0x42 # 0x32 # replicate 999974 (0 :: u8)"
  let ?mem = "bf_mem ?bf zero_junk"
  have be: "spec_be32 (999986 :: u32) = [0x00, 0x0F, 0x42, 0x32]"
    by code_simp
  have stream: "spec_stream [SpecData 0 0 0 (replicate 999986 0)] 0 =
        [0x01, 0, 0, 0, 0, 0, 0, 0, 0x00, 0x0F, 0x42, 0x32] @ replicate 999986 0 @ [0x03, 0, 0, 0, 0]"
    by (simp add: spec_stream_def spec_record_bytes.simps spec_end_bytes_def be)
       (simp add: spec_be16_def spec_be32_def)
  have len: "length ?big = 1000017"
    unfolding stream by simp
  have bf: "take (MAX_FILE_SIZE_BYTES - HEADER_SIZE_BYTES) (drop HEADER_SIZE_BYTES ?big) = ?bf"
    unfolding stream by (simp add: MAX_FILE_SIZE_BYTES_def HEADER_SIZE_BYTES_def)
  have rejected: "DisplayFileSize ?big = Inl FileSizeTooLarge"
    by (rule DisplayFileSize_rejects) (use len in \<open>simp_all add: MAX_FILE_SIZE_BYTES_def\<close>)
  have tag: "?mem 0 = 0x01"
    by (simp add: bf_mem_def)
  have b: "?mem (0 + 1) = 0" "?mem (0 + 2) = 0" "?mem (0 + 3) = 0" "?mem (0 + 4) = 0"
    "?mem (0 + 5) = 0" "?mem (0 + 6) = 0" "?mem (0 + 7) = 0" "?mem (0 + 8) = 0x00"
    "?mem (0 + 9) = 0x0F" "?mem (0 + 10) = 0x42" "?mem (0 + 11) = 0x32"
    by (simp_all add: bf_mem_def)
  have n: "shift_or4 0x00 0x0F 0x42 0x32 = 999986"
    by (simp add: shift_or4_def)
  have s1: "DisplayRecord ?mem True 0 =
        \<lparr> decoded = DataRecord 0 0 0 999986, program_bytes = None,
          bytes_read = [0..<12], next_record = Some 999998 \<rparr>"
    unfolding DisplayRecord_data [of ?mem 0 True, OF tag] b n
    by (simp add: shift_or4_def shift_or2_def)
  have past: "?mem 999998 = 0"
    by (simp add: bf_mem_def zero_junk_def)
  have s2: "DisplayRecord ?mem True 999998 =
        \<lparr> decoded = NoRecord, program_bytes = None, bytes_read = [999998], next_record = None \<rparr>"
    by (rule DisplayRecord_other) (unfold past, simp_all)
  have "DisplayRecords_loop ?mem True 999998 = Some [DisplayRecord ?mem True 999998]"
    by (rule DisplayRecords_loop_stop) (simp add: s2)
  moreover have "DisplayRecords_loop ?mem True 0 =
        Option.bind (DisplayRecords_loop ?mem True 999998) (\<lambda>rest. Some (DisplayRecord ?mem True 0 # rest))"
    by (rule DisplayRecords_loop_continue) (simp add: s1)
  ultimately have walk: "DisplayRecords_loop ?mem True 0 =
        Some [DisplayRecord ?mem True 0, DisplayRecord ?mem True 999998]"
    by simp
  have "DisplayRecords True zero_junk ?big =
        Some (Inr [DisplayRecord ?mem True 0, DisplayRecord ?mem True 999998])"
    unfolding DisplayRecords_def Let_def bf using walk by simp
  then show ?thesis
    unfolding bf s1 s2 using len main_stops_at_size [OF rejected, of True zero_junk] by simp
qed

text \<open>
  Claim C6, amended. For every file of at least 18 and fewer than 1,000,000 bytes that
  consists of a 14-byte header and a well-formed record stream (records, then an End record),
  the walk terminates, it displays the records of the stream in order and the End record
  last, and every byte it reads lies below the number of bytes loaded into the buffer.
\<close>

theorem well_formed_stream_decodes:
  assumes "length hdr = HEADER_SIZE_BYTES"
    and "18 \<le> length (hdr @ spec_stream rs c)"
    and "length (hdr @ spec_stream rs c) < MAX_FILE_SIZE_BYTES"
  shows "\<exists>steps. DisplayRecords hide junk (hdr @ spec_stream rs c) = Some (Inr steps)
           \<and> map decoded steps = map spec_fields rs @ [EndRecord c]
           \<and> (\<forall>s\<in>set steps. \<forall>i\<in>set (bytes_read s). i < length (spec_stream rs c))"
proof -
  have "length (spec_stream rs c) < 2 ^ 32"
    using assms(3) by (simp add: MAX_FILE_SIZE_BYTES_def)
  from DisplayRecords_loop_stream [OF this, of "[]" junk hide]
  obtain steps where
    w: "DisplayRecords_loop (bf_mem (spec_stream rs c) junk) hide 0 = Some steps"
    and f: "map decoded steps = map spec_fields rs @ [EndRecord c]"
    and b: "\<forall>s\<in>set steps. \<forall>i\<in>set (bytes_read s). i < length (spec_stream rs c)"
    by auto
  have "0 < length (spec_stream rs c)"
    using spec_stream_length [of rs c] by linarith
  then have "HEADER_SIZE_BYTES < length (hdr @ spec_stream rs c)"
    using assms(1) by simp
  then have "DisplayRecords hide junk (hdr @ spec_stream rs c) =
             map_option Inr (DisplayRecords_loop (bf_mem (spec_stream rs c) junk) hide 0)"
    using assms(1,3) by (simp add: DisplayRecords_small)
  with w f b show ?thesis by simp
qed

theorem well_formed_stream_decodes_witness:
  "length [0, 0, 0, 1, 0, 0, 0, 0, 0, 0, 0, 4, 1, 0 :: u8] = HEADER_SIZE_BYTES
   \<and> 18 \<le> length ([0, 0, 0, 1, 0, 0, 0, 0, 0, 0, 0, 4, 1, 0]
                    @ spec_stream [SpecData 0 0 0 [0xDE, 0xAD, 0xBE, 0xEF], SpecEntry 0x1000 5] 0)
   \<and> length ([0, 0, 0, 1, 0, 0, 0, 0, 0, 0, 0, 4, 1, 0]
               @ spec_stream [SpecData 0 0 0 [0xDE, 0xAD, 0xBE, 0xEF], SpecEntry 0x1000 5] 0)
       < MAX_FILE_SIZE_BYTES
   \<and> spec_stream [SpecData 0 0 0 [0xDE, 0xAD, 0xBE, 0xEF], SpecEntry 0x1000 5] 0 = example_records
   \<and> DisplayRecords False zero_junk
        ([0, 0, 0, 1, 0, 0, 0, 0, 0, 0, 0, 4, 1, 0]
         @ spec_stream [SpecData 0 0 0 [0xDE, 0xAD, 0xBE, 0xEF], SpecEntry 0x1000 5] 0) =
       Some (Inr [\<lparr> decoded = DataRecord 0 0 0 4, program_bytes = Some [0xDE, 0xAD, 0xBE, 0xEF],
                    bytes_read = [0..<16], next_record = Some 16 \<rparr>,
                  \<lparr> decoded = EntryRecord 0x1000 5, program_bytes = None,
                    bytes_read = [16..<22], next_record = Some 22 \<rparr>,
                  \<lparr> decoded = EndRecord 0, program_bytes = None,
                    bytes_read = [22..<27], next_record = None \<rparr>])"
proof -
  have e: "spec_stream [SpecData 0 0 0 [0xDE, 0xAD, 0xBE, 0xEF], SpecEntry 0x1000 5] 0 = example_records"
    by code_simp
  have run: "DisplayRecords_loop (bf_mem example_records zero_junk) False 0 =
       Some [\<lparr> decoded = DataRecord 0 0 0 4, program_bytes = Some [0xDE, 0xAD, 0xBE, 0xEF],
                    bytes_read = [0..<16], next_record = Some 16 \<rparr>,
                  \<lparr> decoded = EntryRecord 0x1000 5, program_bytes = None,
                    bytes_read = [16..<22], next_record = Some 22 \<rparr>,
                  \<lparr> decoded = EndRecord 0, program_bytes = None,
                    bytes_read = [22..<27], next_record = None \<rparr>]"
    by code_simp
  have len: "length example_records = 27"
    by (simp add: example_records_def)
  show ?thesis
    using well_formed_stream_decodes
      [of "[0, 0, 0, 1, 0, 0, 0, 0, 0, 0, 0, 4, 1, 0]"
          "[SpecData 0 0 0 [0xDE, 0xAD, 0xBE, 0xEF], SpecEntry 0x1000 5]" 0 False zero_junk]
    unfolding e
    by (simp add: DisplayRecords_small len run HEADER_SIZE_BYTES_def MAX_FILE_SIZE_BYTES_def)
qed

section \<open>Files of 2 GiB and more\<close>

text \<open>
  Claim C7 says that every file of at least 1,000,000 bytes is rejected by the size check.
  The check compares \<^verbatim>\<open>(int)ftell(fp)\<close>: at a file of \<open>2 ^ 31\<close> bytes the cast gives
  \<open>- 2147483648\<close>, which is below the limit, and \<open>DisplayFileSize\<close> prints that size and
  returns 0. On such a file of zero bytes \<open>main\<close> goes on through all four stages.
\<close>

theorem DisplayFileSize_2GiB_accepted:
  "MAX_FILE_SIZE_BYTES \<le> length (replicate (2 ^ 31) (0 :: u8))
   \<and> DisplayFileSize (replicate (2 ^ 31) 0) = Inr (- 2147483648)
   \<and> main True zero_junk (replicate (2 ^ 31) 0) =
        Some [ShownFileSize (- 2147483648),
              ShownHeader \<lparr> magic_number = 0, program_flags = 0, number_of_program_bytes = 0,
                            version_information = 0 \<rparr>,
              ShownRecords [\<lparr> decoded = NoRecord, program_bytes = None, bytes_read = [0],
                              next_record = None \<rparr>],
              ShownChecksum 0]"
proof -
  let ?f = "replicate (2 ^ 31) (0 :: u8)"
  have size: "DisplayFileSize ?f = Inr (- 2147483648)"
    by (simp add: DisplayFileSize_def MAX_FILE_SIZE_BYTES_def)
  have hdr: "DisplayHeader ?f =
        Inr \<lparr> magic_number = 0, program_flags = 0, number_of_program_bytes = 0,
              version_information = 0 \<rparr>"
    by (simp add: DisplayHeader_def HEADER_SIZE_BYTES_def shift_or4_def shift_or2_def)
  have bf: "take (MAX_FILE_SIZE_BYTES - HEADER_SIZE_BYTES) (drop HEADER_SIZE_BYTES ?f) =
            replicate 999986 0"
    by (simp add: MAX_FILE_SIZE_BYTES_def HEADER_SIZE_BYTES_def)
  have tag: "bf_mem (replicate 999986 0) zero_junk 0 = 0"
    by (simp add: bf_mem_def)
  have step: "DisplayRecord (bf_mem (replicate 999986 0) zero_junk) True 0 =
        \<lparr> decoded = NoRecord, program_bytes = None, bytes_read = [0], next_record = None \<rparr>"
    by (rule DisplayRecord_other) (simp_all add: tag)
  have "DisplayRecords_loop (bf_mem (replicate 999986 0) zero_junk) True 0 =
        Some [DisplayRecord (bf_mem (replicate 999986 0) zero_junk) True 0]"
    by (rule DisplayRecords_loop_stop) (simp add: step)
  then have recs: "DisplayRecords True zero_junk ?f =
        Some (Inr [\<lparr> decoded = NoRecord, program_bytes = None, bytes_read = [0],
                    next_record = None \<rparr>])"
    unfolding DisplayRecords_def Let_def bf by (simp add: step)
  have "checksummed_bytes ?f = replicate (2 ^ 31 - 4) 0"
    by (simp add: checksummed_bytes_def unat_sub_if_size word_size)
  then have sum: "DisplayCalculatedChecksum ?f = Inr 0"
    using checksum_total [of ?f] by (simp add: sum_list_replicate)
  show ?thesis
    unfolding main_def size hdr recs sum by (simp add: MAX_FILE_SIZE_BYTES_def)
qed

text \<open>
  Claim C3 covers every file of length at least 4. \<open>crcPos\<close> is computed from
  \<^verbatim>\<open>(unsigned int)ftell(fp)\<close>, commented \<^verbatim>\<open>crc position 4 bytes from the end of the file\<close>:
  at a file of \<open>2 ^ 32 + 4\<close> bytes the cast gives 4 and \<open>crcPos\<close> is 0, so that no byte
  is added and the checksum printed is 0, whereas the negated sum of all bytes but the last
  four is \<open>0xFFFFFFFF\<close> for the file below. \<open>main\<close> gets that far, since the size check
  sees a size of 4.
\<close>

theorem checksum_4GiB_file_not_summed:
  "4 \<le> length (1 # replicate (2 ^ 32 + 3) (0 :: u8))
   \<and> DisplayCalculatedChecksum (1 # replicate (2 ^ 32 + 3) 0) = Inr 0
   \<and> - sum_list (map ucast
          (take (length (1 # replicate (2 ^ 32 + 3) (0 :: u8)) - 4) (1 # replicate (2 ^ 32 + 3) 0)))
       = (0xFFFFFFFF :: u32)
   \<and> main True zero_junk (1 # replicate (2 ^ 32 + 3) 0) =
        Some [ShownFileSize 4,
              ShownHeader \<lparr> magic_number = 0x01000000, program_flags = 0,
                            number_of_program_bytes = 0, version_information = 0 \<rparr>,
              ShownRecords [\<lparr> decoded = NoRecord, program_bytes = None, bytes_read = [0],
                              next_record = None \<rparr>],
              ShownChecksum 0]"
proof -
  let ?f = "1 # replicate (2 ^ 32 + 3) (0 :: u8)"
  have sum: "DisplayCalculatedChecksum ?f = Inr 0"
    by (simp add: DisplayCalculatedChecksum_def)
  have claimed: "- sum_list (map ucast (take (length ?f - 4) ?f)) = (0xFFFFFFFF :: u32)"
    by (simp add: sum_list_replicate)
  have size: "DisplayFileSize ?f = Inr 4"
    by (simp add: DisplayFileSize_def MAX_FILE_SIZE_BYTES_def)
  have hdr: "DisplayHeader ?f =
        Inr \<lparr> magic_number = 0x01000000, program_flags = 0, number_of_program_bytes = 0,
              version_information = 0 \<rparr>"
    by (simp add: DisplayHeader_def HEADER_SIZE_BYTES_def shift_or4_def shift_or2_def)
  have bf: "take (MAX_FILE_SIZE_BYTES - HEADER_SIZE_BYTES) (drop HEADER_SIZE_BYTES ?f) =
            replicate 999986 0"
    by (simp add: MAX_FILE_SIZE_BYTES_def HEADER_SIZE_BYTES_def)
  have tag: "bf_mem (replicate 999986 0) zero_junk 0 = 0"
    by (simp add: bf_mem_def)
  have step: "DisplayRecord (bf_mem (replicate 999986 0) zero_junk) True 0 =
        \<lparr> decoded = NoRecord, program_bytes = None, bytes_read = [0], next_record = None \<rparr>"
    by (rule DisplayRecord_other) (simp_all add: tag)
  have "DisplayRecords_loop (bf_mem (replicate 999986 0) zero_junk) True 0 =
        Some [DisplayRecord (bf_mem (replicate 999986 0) zero_junk) True 0]"
    by (rule DisplayRecords_loop_stop) (simp add: step)
  then have recs: "DisplayRecords True zero_junk ?f =
        Some (Inr [\<lparr> decoded = NoRecord, program_bytes = None, bytes_read = [0],
                    next_record = None \<rparr>])"
    unfolding DisplayRecords_def Let_def bf by (simp add: step)
  have "main True zero_junk ?f =
        Some [ShownFileSize 4,
              ShownHeader \<lparr> magic_number = 0x01000000, program_flags = 0,
                            number_of_program_bytes = 0, version_information = 0 \<rparr>,
              ShownRecords [\<lparr> decoded = NoRecord, program_bytes = None, bytes_read = [0],
                              next_record = None \<rparr>],
              ShownChecksum 0]"
    unfolding main_def size hdr recs sum by simp
  with sum claimed show ?thesis
    by simp
qed

end
